theory Spec2Isabelle
  imports Main "HOL-Library.Word" "HOL-Library.Log_Nat"
begin

unbundle bit_operations_syntax

section \<open>Common conventions\<close>

text \<open>
  The library is written for a 64-bit target: \<^verbatim>\<open>size_t\<close> is an unsigned 64-bit integer
  (the code shifts it by 32) and \<^verbatim>\<open>intptr_t\<close> its signed counterpart. Cursor arithmetic
  therefore wraps modulo \<open>2 ^ 64\<close>.

  The operations are modelled as they run when no other thread interferes between two
  of their atomic accesses: every atomic load sees the last store, and a
  compare-exchange succeeds exactly when the cell holds the expected value (on failure
  it hands back the current value, as the C++ primitive does). Memory orders (relaxed,
  acquire, release) have no counterpart here; the order of the stores within one call
  is the order of the state updates. \<^verbatim>\<open>operator new\<close> is assumed to hand out a
  block of the byte count it is asked for, the element type's destructor and the copy
  operations used by the unbounded stack and queue are assumed not to throw, and the
  printing done by the unbounded stack and queue is left out.
\<close>

type_synonym size_t = "64 word"

text \<open>
  How a call ends: it returns a value, it lets an exception of the element type
  escape, or it runs into undefined behaviour (a slot access outside the
  array, a read of storage that holds no element, a dereference of a null or freed
  node). A call that never returns is the value \<open>None\<close> of the enclosing option.
\<close>

datatype 'r outcome = Returned 'r | Thrown | Undefined

text \<open>
  The element to be stored is passed as the outcome of evaluating
  \<^verbatim>\<open>new (ptr) T(std::forward<Args>(args)...)\<close>: \<open>Some v\<close> when the constructor
  yields the element \<open>v\<close>, \<open>None\<close> when it throws.
\<close>

type_synonym 'a construction = "'a option"

text \<open>
  Moving a stored element out can throw as well. \<open>move_throws v\<close> says that the
  move constructor of the element type throws when it is handed the stored element
  \<open>v\<close>. \<open>assign_throws out v = Some out'\<close> says that the move assignment of \<open>v\<close> to
  the caller's object \<open>out\<close> throws and leaves \<open>out'\<close> in that object; \<open>None\<close> says
  that it succeeds, after which the object holds \<open>v\<close>. Both are parameters of the
  operations that move.
\<close>

type_synonym 'a move_ctor = "'a \<Rightarrow> bool"

type_synonym 'a move_assign = "'a \<Rightarrow> 'a \<Rightarrow> 'a option"

definition nothrow_move :: "'a move_ctor" where
  "nothrow_move v = False"

definition nothrow_assign :: "'a move_assign" where
  "nothrow_assign out v = None"

text \<open>
  \<^verbatim>\<open>::operator new(sizeof(Node) * capacity_, ...)\<close> and
  \<^verbatim>\<open>::operator new(sizeof(T) * capacity_, ...)\<close>: the byte count is computed in
  \<^verbatim>\<open>size_t\<close> and wraps around; the block has room for as many cells as fit into
  that byte count. The size of a cell depends on the element type and is a parameter.
\<close>

definition allocated_cells :: "size_t \<Rightarrow> size_t \<Rightarrow> nat" where
  "allocated_cells cell_size count = unat (cell_size * count) div unat cell_size"

section \<open>Rounding the capacity\<close>

text \<open>
  \<^verbatim>\<open>MPMCQueue::next_power_of_2\<close> and \<^verbatim>\<open>RingBuffer::next_power_of_2\<close>
  have the same body. \<open>smear\<close> names its six shift-and-or lines, for the proofs.
\<close>

definition smear :: "size_t \<Rightarrow> size_t" where
  "smear m =
     (let n = m;
          n = n OR drop_bit 1 n;
          n = n OR drop_bit 2 n;
          n = n OR drop_bit 4 n;
          n = n OR drop_bit 8 n;
          n = n OR drop_bit 16 n;
          n = n OR drop_bit 32 n
      in n)"

definition next_power_of_2 :: "size_t \<Rightarrow> size_t" where
  "next_power_of_2 n =
     (if n = 0 then 1
      else
        let n = n - 1;
            n = n OR drop_bit 1 n;
            n = n OR drop_bit 2 n;
            n = n OR drop_bit 4 n;
            n = n OR drop_bit 8 n;
            n = n OR drop_bit 16 n;
            n = n OR drop_bit 32 n
        in n + 1)"

text \<open>
  The specification's \<open>next_power_of_two\<close>, on unbounded naturals: the least power of
  two that is at least \<open>k\<close>; \<open>ceillog2 k\<close> is the logarithm of \<open>k\<close> to base 2,
  rounded up (and 0 for \<open>k = 0\<close>).
\<close>

definition next_power_of_two :: "nat \<Rightarrow> nat" where
  "next_power_of_two k = 2 ^ ceillog2 k"

section \<open>Bounded MPMC queue\<close>

subsection \<open>State\<close>

record 'a Node =
  storage :: "'a option"
  sequence :: size_t

text \<open>
  \<open>storage = None\<close> stands for raw bytes that hold no constructed element.
  The fields \<^verbatim>\<open>capacity_\<close>, \<^verbatim>\<open>mask_\<close> and \<^verbatim>\<open>buffer_\<close> of the class
  are \<open>capacity\<close>, \<open>slot_mask\<close> and \<open>buffer\<close>.
\<close>

record 'a MPMCQueue =
  enqueue_pos :: size_t
  dequeue_pos :: size_t
  capacity :: size_t
  slot_mask :: size_t
  buffer :: "'a Node list"

text \<open>
  The constructor, for an element type whose \<^verbatim>\<open>Node\<close> takes \<open>node_size\<close> bytes.
  Its loop initialises \<^verbatim>\<open>buffer_[i]\<close> for every \<open>i < capacity_\<close>; when the
  allocated block is shorter than that, it writes behind the block.
\<close>

definition MPMCQueue_new :: "size_t \<Rightarrow> size_t \<Rightarrow> 'a MPMCQueue outcome" where
  "MPMCQueue_new node_size k =
     (let c = next_power_of_2 k in
      if allocated_cells node_size c < unat c then Undefined
      else
        Returned
          \<lparr>enqueue_pos = 0, dequeue_pos = 0, capacity = c, slot_mask = c - 1,
           buffer = map (\<lambda>i. \<lparr>storage = None, sequence = of_nat i\<rparr>) [0..<unat c]\<rparr>)"

definition slot_index :: "'a MPMCQueue \<Rightarrow> size_t \<Rightarrow> nat" where
  "slot_index q pos = unat (pos AND slot_mask q)"

text \<open>
  \<^verbatim>\<open>intptr_t diff = static_cast<intptr_t>(seq) - static_cast<intptr_t>(expected)\<close>,
  in two's complement.
\<close>

definition seq_diff :: "size_t \<Rightarrow> size_t \<Rightarrow> int" where
  "seq_diff seq expected = sint (seq - expected)"

subsection \<open>One pass through the claim loop\<close>

datatype 'q attempt = Claimed 'q | Boundary | Retry size_t | OutOfRange

definition enqueue_attempt :: "'a MPMCQueue \<Rightarrow> size_t \<Rightarrow> 'a MPMCQueue attempt" where
  "enqueue_attempt q pos =
     (if length (buffer q) \<le> slot_index q pos then OutOfRange
      else
        let seq = sequence (buffer q ! slot_index q pos);
            diff = seq_diff seq pos
        in if diff = 0 then
             (if enqueue_pos q = pos then Claimed (q\<lparr>enqueue_pos := pos + 1\<rparr>)
              else Retry (enqueue_pos q))
           else if diff < 0 then Boundary
           else Retry (enqueue_pos q))"

definition dequeue_attempt :: "'a MPMCQueue \<Rightarrow> size_t \<Rightarrow> 'a MPMCQueue attempt" where
  "dequeue_attempt q pos =
     (if length (buffer q) \<le> slot_index q pos then OutOfRange
      else
        let seq = sequence (buffer q ! slot_index q pos);
            diff = seq_diff seq (pos + 1)
        in if diff = 0 then
             (if dequeue_pos q = pos then Claimed (q\<lparr>dequeue_pos := pos + 1\<rparr>)
              else Retry (dequeue_pos q))
           else if diff < 0 then Boundary
           else Retry (dequeue_pos q))"

subsection \<open>The loops\<close>

datatype 'q claim = Slot size_t 'q | NoSlot | Fault

partial_function (option) enqueue_loop :: "'a MPMCQueue \<Rightarrow> size_t \<Rightarrow> 'a MPMCQueue claim option" where
  "enqueue_loop q pos =
     (case enqueue_attempt q pos of
        Claimed q' \<Rightarrow> Some (Slot pos q')
      | Boundary \<Rightarrow> Some NoSlot
      | Retry pos' \<Rightarrow> enqueue_loop q pos'
      | OutOfRange \<Rightarrow> Some Fault)"

partial_function (option) dequeue_loop :: "'a MPMCQueue \<Rightarrow> size_t \<Rightarrow> 'a MPMCQueue claim option" where
  "dequeue_loop q pos =
     (case dequeue_attempt q pos of
        Claimed q' \<Rightarrow> Some (Slot pos q')
      | Boundary \<Rightarrow> Some NoSlot
      | Retry pos' \<Rightarrow> dequeue_loop q pos'
      | OutOfRange \<Rightarrow> Some Fault)"

declare enqueue_loop.simps [code]
declare dequeue_loop.simps [code]

subsection \<open>Operations\<close>

definition set_slot :: "'a MPMCQueue \<Rightarrow> nat \<Rightarrow> 'a Node \<Rightarrow> 'a MPMCQueue" where
  "set_slot q i n = q\<lparr>buffer := (buffer q)[i := n]\<rparr>"

definition try_emplace :: "'a MPMCQueue \<Rightarrow> 'a construction \<Rightarrow> (bool outcome \<times> 'a MPMCQueue) option" where
  "try_emplace q args =
     (case enqueue_loop q (enqueue_pos q) of
        None \<Rightarrow> None
      | Some Fault \<Rightarrow> Some (Undefined, q)
      | Some NoSlot \<Rightarrow> Some (Returned False, q)
      | Some (Slot pos q') \<Rightarrow>
          (let i = slot_index q' pos; node = buffer q' ! i in
           case args of
             None \<Rightarrow> Some (Thrown, set_slot q' i (node\<lparr>sequence := pos + capacity q'\<rparr>))
           | Some v \<Rightarrow>
               Some (Returned True, set_slot q' i (node\<lparr>storage := Some v, sequence := pos + 1\<rparr>))))"

definition try_enqueue :: "'a MPMCQueue \<Rightarrow> 'a construction \<Rightarrow> (bool outcome \<times> 'a MPMCQueue) option" where
  "try_enqueue q item = try_emplace q item"

text \<open>
  \<^verbatim>\<open>std::optional<T> try_dequeue()\<close>. When the move constructor throws, the
  element stays constructed in the slot, the slot's sequence is set to
  \<open>pos + capacity\<close> and the exception is rethrown.
\<close>

definition try_dequeue :: "'a move_ctor \<Rightarrow> 'a MPMCQueue \<Rightarrow> ('a option outcome \<times> 'a MPMCQueue) option" where
  "try_dequeue move_throws q =
     (case dequeue_loop q (dequeue_pos q) of
        None \<Rightarrow> None
      | Some Fault \<Rightarrow> Some (Undefined, q)
      | Some NoSlot \<Rightarrow> Some (Returned None, q)
      | Some (Slot pos q') \<Rightarrow>
          (let i = slot_index q' pos; node = buffer q' ! i in
           case storage node of
             None \<Rightarrow> Some (Undefined, q')
           | Some v \<Rightarrow>
               if move_throws v then
                 Some (Thrown, set_slot q' i (node\<lparr>sequence := pos + capacity q'\<rparr>))
               else
                 Some (Returned (Some v),
                       set_slot q' i (node\<lparr>storage := None, sequence := pos + capacity q'\<rparr>))))"

text \<open>
  \<^verbatim>\<open>bool try_dequeue(T& out)\<close>: the caller's object is threaded through. When
  the move assignment throws, the same sentinel is stored and the exception rethrown.
\<close>

definition try_dequeue_out :: "'a move_assign \<Rightarrow> 'a MPMCQueue \<Rightarrow> 'a \<Rightarrow> (bool outcome \<times> 'a \<times> 'a MPMCQueue) option" where
  "try_dequeue_out assign_throws q out =
     (case dequeue_loop q (dequeue_pos q) of
        None \<Rightarrow> None
      | Some Fault \<Rightarrow> Some (Undefined, out, q)
      | Some NoSlot \<Rightarrow> Some (Returned False, out, q)
      | Some (Slot pos q') \<Rightarrow>
          (let i = slot_index q' pos; node = buffer q' ! i in
           case storage node of
             None \<Rightarrow> Some (Undefined, out, q')
           | Some v \<Rightarrow>
               (case assign_throws out v of
                  Some out' \<Rightarrow>
                    Some (Thrown, out', set_slot q' i (node\<lparr>sequence := pos + capacity q'\<rparr>))
                | None \<Rightarrow>
                    Some (Returned True, v,
                          set_slot q' i (node\<lparr>storage := None, sequence := pos + capacity q'\<rparr>)))))"

definition size_q :: "'a MPMCQueue \<Rightarrow> size_t" where
  "size_q q = enqueue_pos q - dequeue_pos q"

definition empty_q :: "'a MPMCQueue \<Rightarrow> bool" where
  "empty_q q = (dequeue_pos q \<ge> enqueue_pos q)"

definition full_q :: "'a MPMCQueue \<Rightarrow> bool" where
  "full_q q = (size_q q \<ge> capacity q)"


subsection \<open>What a well-formed queue looks like\<close>

text \<open>
  \<open>mpmc_wf q\<close>: the capacity is a power of two, and the mask and the array fit it.
  The constructor, when it returns, establishes this for every requested capacity up to
  \<open>2 ^ 63\<close>, and no operation touches these fields.
\<close>

definition mpmc_wf :: "'a MPMCQueue \<Rightarrow> bool" where
  "mpmc_wf q \<longleftrightarrow>
     (\<exists>e\<in>{..<64}. capacity q = 2 ^ e) \<and>
     slot_mask q = capacity q - 1 \<and>
     length (buffer q) = unat (capacity q)"

text \<open>
  \<open>mpmc_inv q xs\<close>: the queue is well formed and holds exactly the elements \<open>xs\<close>,
  oldest first. Walking the \<open>capacity\<close> positions from \<open>dequeue_pos\<close> on, the first
  \<open>length xs\<close> slots are published (element constructed, sequence = position + 1) and
  the others are free for the producer that will arrive at that position (no element,
  sequence = position).
\<close>

definition mpmc_inv :: "'a MPMCQueue \<Rightarrow> 'a list \<Rightarrow> bool" where
  "mpmc_inv q xs \<longleftrightarrow>
     mpmc_wf q \<and>
     length xs \<le> unat (capacity q) \<and>
     enqueue_pos q = dequeue_pos q + of_nat (length xs) \<and>
     (\<forall>i\<in>{..<unat (capacity q)}.
        buffer q ! slot_index q (dequeue_pos q + of_nat i) =
          (if i < length xs
           then \<lparr>storage = Some (xs ! i), sequence = dequeue_pos q + of_nat i + 1\<rparr>
           else \<lparr>storage = None, sequence = dequeue_pos q + of_nat i\<rparr>))"

subsection \<open>A single thread driving the queue\<close>

datatype 'a op = Enqueue 'a | Dequeue

text \<open>
  \<open>run mt q ops\<close> performs the operations one after the other, for an element type
  whose move constructor throws as \<open>mt\<close> says, and collects the values whose enqueue
  returned true and the values the dequeues delivered, both in order. It is \<open>None\<close>
  when some operation does not return normally.
\<close>

fun run :: "'a move_ctor \<Rightarrow> 'a MPMCQueue \<Rightarrow> 'a op list \<Rightarrow> ('a list \<times> 'a list \<times> 'a MPMCQueue) option" where
  "run mt q [] = Some ([], [], q)"
| "run mt q (Enqueue v # ops) =
     (case try_enqueue q (Some v) of
        Some (Returned True, q') \<Rightarrow>
          (case run mt q' ops of None \<Rightarrow> None | Some (ins, outs, q'') \<Rightarrow> Some (v # ins, outs, q''))
      | Some (Returned False, q') \<Rightarrow> run mt q' ops
      | _ \<Rightarrow> None)"
| "run mt q (Dequeue # ops) =
     (case try_dequeue mt q of
        Some (Returned (Some v), q') \<Rightarrow>
          (case run mt q' ops of None \<Rightarrow> None | Some (ins, outs, q'') \<Rightarrow> Some (ins, v # outs, q''))
      | Some (Returned None, q') \<Rightarrow> run mt q' ops
      | _ \<Rightarrow> None)"

section \<open>SPSC ring buffer\<close>

text \<open>
  The fields \<^verbatim>\<open>storage_\<close>, \<^verbatim>\<open>capacity_\<close> and \<^verbatim>\<open>mask_\<close> are \<open>rb_storage\<close>,
  \<open>rb_capacity\<close> and \<open>rb_mask\<close>; an entry \<open>None\<close> of the storage is a cell without a
  constructed element.
\<close>

record 'a RingBuffer =
  rb_storage :: "'a option list"
  rb_capacity :: size_t
  rb_mask :: size_t
  write_pos :: size_t
  cached_read_pos :: size_t
  read_pos :: size_t
  cached_write_pos :: size_t

text \<open>
  The constructor, for an element type of \<open>elem_size\<close> bytes. It only allocates;
  the storage has the cells that fit into the allocated block.
\<close>

definition RingBuffer_new :: "size_t \<Rightarrow> size_t \<Rightarrow> 'a RingBuffer" where
  "RingBuffer_new elem_size k =
     (let c = next_power_of_2 k in
      \<lparr>rb_storage = replicate (allocated_cells elem_size c) None, rb_capacity = c,
       rb_mask = c - 1,
       write_pos = 0, cached_read_pos = 0, read_pos = 0, cached_write_pos = 0\<rparr>)"

definition cell_index :: "'a RingBuffer \<Rightarrow> size_t \<Rightarrow> nat" where
  "cell_index r pos = unat (pos AND rb_mask r)"

text \<open>
  The part of \<^verbatim>\<open>try_write\<close> and \<^verbatim>\<open>try_emplace\<close> after the full check: construct
  in place, swallow a constructor exception and report false, otherwise publish.
\<close>

definition construct_and_publish :: "'a RingBuffer \<Rightarrow> size_t \<Rightarrow> 'a construction \<Rightarrow> bool outcome \<times> 'a RingBuffer" where
  "construct_and_publish r write item =
     (if length (rb_storage r) \<le> cell_index r write then (Undefined, r)
      else case item of
        None \<Rightarrow> (Returned False, r)
      | Some v \<Rightarrow>
          (Returned True,
           r\<lparr>rb_storage := (rb_storage r)[cell_index r write := Some v], write_pos := write + 1\<rparr>))"

definition try_write :: "'a RingBuffer \<Rightarrow> 'a construction \<Rightarrow> bool outcome \<times> 'a RingBuffer" where
  "try_write r item =
     (let write = write_pos r; read = cached_read_pos r in
      if write - read \<ge> rb_capacity r then
        (let read = read_pos r; r' = r\<lparr>cached_read_pos := read\<rparr> in
         if write - read \<ge> rb_capacity r' then (Returned False, r')
         else construct_and_publish r' write item)
      else construct_and_publish r write item)"

definition rb_try_emplace :: "'a RingBuffer \<Rightarrow> 'a construction \<Rightarrow> bool outcome \<times> 'a RingBuffer" where
  "rb_try_emplace r args =
     (let write = write_pos r; read = cached_read_pos r in
      if write - read \<ge> rb_capacity r then
        (let read = read_pos r; r' = r\<lparr>cached_read_pos := read\<rparr> in
         if write - read \<ge> rb_capacity r' then (Returned False, r')
         else construct_and_publish r' write args)
      else construct_and_publish r write args)"

text \<open>
  The part of \<^verbatim>\<open>try_read\<close> after the empty check: move out, destroy, publish.
  A move constructor that throws is caught: the call reports an empty optional and
  leaves the buffer as it is.
\<close>

definition move_out_and_publish :: "'a move_ctor \<Rightarrow> 'a RingBuffer \<Rightarrow> size_t \<Rightarrow> 'a option outcome \<times> 'a RingBuffer" where
  "move_out_and_publish move_throws r read =
     (if length (rb_storage r) \<le> cell_index r read then (Undefined, r)
      else case rb_storage r ! cell_index r read of
        None \<Rightarrow> (Undefined, r)
      | Some v \<Rightarrow>
          if move_throws v then (Returned None, r)
          else
            (Returned (Some v),
             r\<lparr>rb_storage := (rb_storage r)[cell_index r read := None], read_pos := read + 1\<rparr>))"

definition try_read :: "'a move_ctor \<Rightarrow> 'a RingBuffer \<Rightarrow> 'a option outcome \<times> 'a RingBuffer" where
  "try_read move_throws r =
     (let read = read_pos r; write = cached_write_pos r in
      if read \<ge> write then
        (let write = write_pos r; r' = r\<lparr>cached_write_pos := write\<rparr> in
         if read \<ge> write then (Returned None, r')
         else move_out_and_publish move_throws r' read)
      else move_out_and_publish move_throws r read)"

text \<open>
  \<^verbatim>\<open>bool try_read(T& out)\<close>. A move assignment that throws is caught: the call
  returns false, the buffer is as it was, and the caller's object holds what the
  failed assignment left there.
\<close>

definition move_assign_and_publish :: "'a move_assign \<Rightarrow> 'a RingBuffer \<Rightarrow> size_t \<Rightarrow> 'a \<Rightarrow> bool outcome \<times> 'a \<times> 'a RingBuffer" where
  "move_assign_and_publish assign_throws r read out =
     (if length (rb_storage r) \<le> cell_index r read then (Undefined, out, r)
      else case rb_storage r ! cell_index r read of
        None \<Rightarrow> (Undefined, out, r)
      | Some v \<Rightarrow>
          (case assign_throws out v of
             Some out' \<Rightarrow> (Returned False, out', r)
           | None \<Rightarrow>
               (Returned True, v,
                r\<lparr>rb_storage := (rb_storage r)[cell_index r read := None],
                  read_pos := read + 1\<rparr>)))"

definition try_read_out :: "'a move_assign \<Rightarrow> 'a RingBuffer \<Rightarrow> 'a \<Rightarrow> bool outcome \<times> 'a \<times> 'a RingBuffer" where
  "try_read_out assign_throws r out =
     (let read = read_pos r; write = cached_write_pos r in
      if read \<ge> write then
        (let write = write_pos r; r' = r\<lparr>cached_write_pos := write\<rparr> in
         if read \<ge> write then (Returned False, out, r')
         else move_assign_and_publish assign_throws r' read out)
      else move_assign_and_publish assign_throws r read out)"

definition rb_full :: "'a RingBuffer \<Rightarrow> bool" where
  "rb_full r = (write_pos r - read_pos r \<ge> rb_capacity r)"

definition rb_empty :: "'a RingBuffer \<Rightarrow> bool" where
  "rb_empty r = (read_pos r \<ge> write_pos r)"

text \<open>
  \<open>rb_wf r\<close>: what the constructor establishes, for a requested capacity up to
  \<open>2 ^ 63\<close> whose byte count does not wrap around, and no operation changes.
\<close>

definition rb_wf :: "'a RingBuffer \<Rightarrow> bool" where
  "rb_wf r \<longleftrightarrow>
     (\<exists>e\<in>{..<64}. rb_capacity r = 2 ^ e) \<and>
     rb_mask r = rb_capacity r - 1 \<and>
     length (rb_storage r) = unat (rb_capacity r)"

text \<open>
  \<open>rb_inv r xs\<close>: a well-formed ring buffer holding the elements \<open>xs\<close>, oldest
  first. The producer's cached read cursor lags behind \<open>read_pos\<close> by at most the free
  space, and the consumer's cached write cursor lies between \<open>read_pos\<close> and
  \<open>write_pos\<close>.
\<close>

definition rb_inv :: "'a RingBuffer \<Rightarrow> 'a list \<Rightarrow> bool" where
  "rb_inv r xs \<longleftrightarrow>
     rb_wf r \<and>
     write_pos r = read_pos r + of_nat (length xs) \<and>
     unat (read_pos r - cached_read_pos r) + length xs \<le> unat (rb_capacity r) \<and>
     unat (cached_write_pos r - read_pos r) \<le> length xs \<and>
     (\<forall>i\<in>{..<length xs}. rb_storage r ! cell_index r (read_pos r + of_nat i) = Some (xs ! i))"

fun rb_run :: "'a move_ctor \<Rightarrow> 'a RingBuffer \<Rightarrow> 'a op list \<Rightarrow> ('a list \<times> 'a list \<times> 'a RingBuffer) option" where
  "rb_run mt r [] = Some ([], [], r)"
| "rb_run mt r (Enqueue v # ops) =
     (case try_write r (Some v) of
        (Returned True, r') \<Rightarrow>
          (case rb_run mt r' ops of None \<Rightarrow> None | Some (ins, outs, r'') \<Rightarrow> Some (v # ins, outs, r''))
      | (Returned False, r') \<Rightarrow> rb_run mt r' ops
      | _ \<Rightarrow> None)"
| "rb_run mt r (Dequeue # ops) =
     (case try_read mt r of
        (Returned (Some v), r') \<Rightarrow>
          (case rb_run mt r' ops of None \<Rightarrow> None | Some (ins, outs, r'') \<Rightarrow> Some (ins, v # outs, r''))
      | (Returned None, r') \<Rightarrow> rb_run mt r' ops
      | _ \<Rightarrow> None)"


section \<open>Unbounded stack and queue on linked nodes\<close>

text \<open>
  \<^verbatim>\<open>LockFreeStack::Node\<close> and \<^verbatim>\<open>LockFreeQueue::Node\<close> both hold an element and
  a pointer to the next node. Nodes live in a heap indexed by address; a pointer is an
  address or null (\<open>None\<close>). \<^verbatim>\<open>new\<close> takes the next unused address,
  \<^verbatim>\<open>delete\<close> empties the cell, and following a pointer whose cell is empty or
  outside the heap is undefined behaviour.
\<close>

type_synonym addr = nat

record 'a ListNode =
  data :: 'a
  next_node :: "addr option"

type_synonym 'a heap = "'a ListNode option list"

definition new_node :: "'a heap \<Rightarrow> 'a \<Rightarrow> addr \<times> 'a heap" where
  "new_node h v = (length h, h @ [Some \<lparr>data = v, next_node = None\<rparr>])"

definition deref :: "'a heap \<Rightarrow> addr \<Rightarrow> 'a ListNode option" where
  "deref h a = (if a < length h then h ! a else None)"

definition delete_node :: "'a heap \<Rightarrow> addr \<Rightarrow> 'a heap" where
  "delete_node h a = h[a := None]"

subsection \<open>Stack\<close>

record 'a LockFreeStack =
  s_head :: "addr option"
  s_heap :: "'a heap"

definition LockFreeStack_new :: "'a LockFreeStack" where
  "LockFreeStack_new = \<lparr>s_head = None, s_heap = []\<rparr>"

text \<open>
  \<^verbatim>\<open>while (!head.compare_exchange_weak(new_node->next, new_node));\<close>
  The expected value is the field \<^verbatim>\<open>next\<close> of the new node; a failed exchange
  writes the current head into it.
\<close>

partial_function (option) push_loop :: "'a LockFreeStack \<Rightarrow> addr \<Rightarrow> (unit outcome \<times> 'a LockFreeStack) option" where
  "push_loop s n =
     (case deref (s_heap s) n of
        None \<Rightarrow> Some (Undefined, s)
      | Some node \<Rightarrow>
          if s_head s = next_node node then Some (Returned (), s\<lparr>s_head := Some n\<rparr>)
          else push_loop (s\<lparr>s_heap := (s_heap s)[n := Some (node\<lparr>next_node := s_head s\<rparr>)]\<rparr>) n)"

declare push_loop.simps [code]

definition push :: "'a LockFreeStack \<Rightarrow> 'a \<Rightarrow> (unit outcome \<times> 'a LockFreeStack) option" where
  "push s v =
     (case new_node (s_heap s) v of
        (n, h) \<Rightarrow>
          push_loop (s\<lparr>s_heap := h[n := Some \<lparr>data = v, next_node = s_head s\<rparr>]\<rparr>) n)"

text \<open>
  \<^verbatim>\<open>while (old_head != nullptr && !head.compare_exchange_weak(old_head, old_head->next));\<close>
  The loop ends with \<^verbatim>\<open>old_head\<close> null or with the node it has unlinked.
\<close>

partial_function (option) pop_loop :: "'a LockFreeStack \<Rightarrow> addr option \<Rightarrow> (addr option outcome \<times> 'a LockFreeStack) option" where
  "pop_loop s old_head =
     (case old_head of
        None \<Rightarrow> Some (Returned None, s)
      | Some a \<Rightarrow>
          (case deref (s_heap s) a of
             None \<Rightarrow> Some (Undefined, s)
           | Some node \<Rightarrow>
               if s_head s = old_head then Some (Returned (Some a), s\<lparr>s_head := next_node node\<rparr>)
               else pop_loop s (s_head s)))"

declare pop_loop.simps [code]

definition try_pop :: "'a LockFreeStack \<Rightarrow> 'a \<Rightarrow> (bool outcome \<times> 'a \<times> 'a LockFreeStack) option" where
  "try_pop s result =
     (case pop_loop s (s_head s) of
        None \<Rightarrow> None
      | Some (Returned None, s') \<Rightarrow> Some (Returned False, result, s')
      | Some (Returned (Some a), s') \<Rightarrow>
          (case deref (s_heap s') a of
             None \<Rightarrow> Some (Undefined, result, s')
           | Some node \<Rightarrow>
               Some (Returned True, data node, s'\<lparr>s_heap := delete_node (s_heap s') a\<rparr>))
      | Some (_, s') \<Rightarrow> Some (Undefined, result, s'))"

subsection \<open>Queue\<close>

record 'a LockFreeQueue =
  q_head :: "addr option"
  q_tail :: "addr option"
  q_heap :: "'a heap"

text \<open>The constructor links one dummy node, built from the default element \<^verbatim>\<open>T{}\<close>.\<close>

definition LockFreeQueue_new :: "'a \<Rightarrow> 'a LockFreeQueue" where
  "LockFreeQueue_new dflt =
     (case new_node [] dflt of (dummy, h) \<Rightarrow> \<lparr>q_head = Some dummy, q_tail = Some dummy, q_heap = h\<rparr>)"

text \<open>
  The loop of \<^verbatim>\<open>push\<close>: it ends once the new node hangs behind the last node and
  yields that node (\<^verbatim>\<open>old_tail\<close>); a lagging tail is advanced first.
\<close>

partial_function (option) link_loop :: "'a LockFreeQueue \<Rightarrow> addr \<Rightarrow> (addr outcome \<times> 'a LockFreeQueue) option" where
  "link_loop q n =
     (case q_tail q of
        None \<Rightarrow> Some (Undefined, q)
      | Some old_tail \<Rightarrow>
          (case deref (q_heap q) old_tail of
             None \<Rightarrow> Some (Undefined, q)
           | Some tail_node \<Rightarrow>
               if Some old_tail = q_tail q then
                 (case next_node tail_node of
                    None \<Rightarrow>
                      Some (Returned old_tail,
                            q\<lparr>q_heap := (q_heap q)[old_tail := Some (tail_node\<lparr>next_node := Some n\<rparr>)]\<rparr>)
                  | Some tail_next \<Rightarrow>
                      link_loop (q\<lparr>q_tail := (if q_tail q = Some old_tail then Some tail_next else q_tail q)\<rparr>) n)
               else link_loop q n))"

declare link_loop.simps [code]

definition q_push :: "'a LockFreeQueue \<Rightarrow> 'a \<Rightarrow> (unit outcome \<times> 'a LockFreeQueue) option" where
  "q_push q v =
     (case new_node (q_heap q) v of
        (n, h) \<Rightarrow>
          (case link_loop (q\<lparr>q_heap := h\<rparr>) n of
             None \<Rightarrow> None
           | Some (Returned old_tail, q') \<Rightarrow>
               Some (Returned (),
                     q'\<lparr>q_tail := (if q_tail q' = Some old_tail then Some n else q_tail q')\<rparr>)
           | Some (_, q') \<Rightarrow> Some (Undefined, q')))"

text \<open>\<^verbatim>\<open>bool pop(T& result)\<close>, the whole loop.\<close>

partial_function (option) pop :: "'a LockFreeQueue \<Rightarrow> 'a \<Rightarrow> (bool outcome \<times> 'a \<times> 'a LockFreeQueue) option" where
  "pop q result =
     (case q_head q of
        None \<Rightarrow> Some (Undefined, result, q)
      | Some old_head \<Rightarrow>
          (case deref (q_heap q) old_head of
             None \<Rightarrow> Some (Undefined, result, q)
           | Some head_node \<Rightarrow>
               if Some old_head = q_head q then
                 if Some old_head = q_tail q then
                   (case next_node head_node of
                      None \<Rightarrow> Some (Returned False, result, q)
                    | Some head_next \<Rightarrow>
                        pop (q\<lparr>q_tail := (if q_tail q = Some old_head then Some head_next
                                            else q_tail q)\<rparr>) result)
                 else if q_head q = Some old_head then
                   (case next_node head_node of
                      None \<Rightarrow> Some (Undefined, result, q\<lparr>q_head := None\<rparr>)
                    | Some head_next \<Rightarrow>
                        (case deref (q_heap q) head_next of
                           None \<Rightarrow> Some (Undefined, result, q\<lparr>q_head := Some head_next\<rparr>)
                         | Some next \<Rightarrow>
                             Some (Returned True, data next,
                                   q\<lparr>q_head := Some head_next,
                                     q_heap := delete_node (q_heap q) old_head\<rparr>)))
                 else pop q result
               else pop q result))"

declare pop.simps [code]

text \<open>
  \<open>q_chain h a as\<close>: starting at the node \<open>a\<close>, the \<open>next\<close> pointers lead through
  exactly the nodes \<open>as\<close> and then to null.
\<close>

fun q_chain :: "'a heap \<Rightarrow> addr \<Rightarrow> addr list \<Rightarrow> bool" where
  "q_chain h a [] = (case deref h a of None \<Rightarrow> False | Some node \<Rightarrow> next_node node = None)"
| "q_chain h a (b # bs) =
     (case deref h a of None \<Rightarrow> False | Some node \<Rightarrow> next_node node = Some b \<and> q_chain h b bs)"

text \<open>
  \<open>queue_inv q d as\<close>: \<open>head\<close> is the dummy node \<open>d\<close>, followed by the nodes
  \<open>as\<close> that carry the queued elements; no node occurs twice, and \<open>tail\<close> is one
  of these nodes.
\<close>

definition queue_inv :: "'a LockFreeQueue \<Rightarrow> addr \<Rightarrow> addr list \<Rightarrow> bool" where
  "queue_inv q d as \<longleftrightarrow>
     q_head q = Some d \<and> q_chain (q_heap q) d as \<and> distinct (d # as) \<and>
     (case q_tail q of None \<Rightarrow> False | Some t \<Rightarrow> t \<in> set (d # as))"

section \<open>Capacity rounding\<close>

lemma smear_step:
  fixes m n :: size_t
  assumes "\<And>i. bit n i \<longleftrightarrow> (\<exists>j. i \<le> j \<and> j < i + d \<and> bit m j)"
  shows "bit (n OR drop_bit d n) i \<longleftrightarrow> (\<exists>j. i \<le> j \<and> j < i + (d + d) \<and> bit m j)"
proof -
  have "bit (n OR drop_bit d n) i \<longleftrightarrow> bit n i \<or> bit n (d + i)"
    by (simp add: bit_or_iff bit_drop_bit_eq)
  also have "\<dots> \<longleftrightarrow> (\<exists>j. i \<le> j \<and> j < i + d \<and> bit m j) \<or> (\<exists>j. d + i \<le> j \<and> j < d + i + d \<and> bit m j)"
    by (simp only: assms)
  also have "\<dots> \<longleftrightarrow> (\<exists>j. i \<le> j \<and> j < i + (d + d) \<and> bit m j)"
  proof -
    have "(i \<le> j \<and> j < i + d) \<or> (d + i \<le> j \<and> j < d + i + d) \<longleftrightarrow> (i \<le> j \<and> j < i + (d + d))" for j
      by arith
    then show ?thesis by blast
  qed
  finally show ?thesis .
qed

lemma high_bit_iff:
  fixes m :: size_t
  shows "(\<exists>j. i \<le> j \<and> bit m j) \<longleftrightarrow> 2 ^ i \<le> unat m"
proof -
  have "(\<exists>j. i \<le> j \<and> bit m j) \<longleftrightarrow> (\<exists>j. bit (drop_bit i (unat m)) j)"
    apply (simp add: bit_drop_bit_eq bit_unsigned_iff)
    apply (metis le_add1 le_Suc_ex)
    done
  also have "\<dots> \<longleftrightarrow> drop_bit i (unat m) \<noteq> 0"
    by (auto simp add: bit_eq_iff)
  also have "\<dots> \<longleftrightarrow> 2 ^ i \<le> unat m"
    by (simp add: drop_bit_eq_div div_eq_0_iff not_less)
  finally show ?thesis .
qed

lemma bit_smear: "bit (smear m) i \<longleftrightarrow> 2 ^ i \<le> unat m"
proof -
  define n1 where "n1 = m OR drop_bit 1 m"
  define n2 where "n2 = n1 OR drop_bit 2 n1"
  define n3 where "n3 = n2 OR drop_bit 4 n2"
  define n4 where "n4 = n3 OR drop_bit 8 n3"
  define n5 where "n5 = n4 OR drop_bit 16 n4"
  define n6 where "n6 = n5 OR drop_bit 32 n5"
  have s: "smear m = n6"
    by (simp add: smear_def Let_def n1_def n2_def n3_def n4_def n5_def n6_def)
  have b0: "bit m i \<longleftrightarrow> (\<exists>j. i \<le> j \<and> j < i + 1 \<and> bit m j)" for i
    by (auto simp: less_Suc_eq_le)
  have b1: "bit n1 i \<longleftrightarrow> (\<exists>j. i \<le> j \<and> j < i + 2 \<and> bit m j)" for i
    unfolding n1_def using smear_step [of m 1 m i, OF b0] by simp
  have b2: "bit n2 i \<longleftrightarrow> (\<exists>j. i \<le> j \<and> j < i + 4 \<and> bit m j)" for i
    unfolding n2_def using smear_step [of n1 2 m i, OF b1] by simp
  have b3: "bit n3 i \<longleftrightarrow> (\<exists>j. i \<le> j \<and> j < i + 8 \<and> bit m j)" for i
    unfolding n3_def using smear_step [of n2 4 m i, OF b2] by simp
  have b4: "bit n4 i \<longleftrightarrow> (\<exists>j. i \<le> j \<and> j < i + 16 \<and> bit m j)" for i
    unfolding n4_def using smear_step [of n3 8 m i, OF b3] by simp
  have b5: "bit n5 i \<longleftrightarrow> (\<exists>j. i \<le> j \<and> j < i + 32 \<and> bit m j)" for i
    unfolding n5_def using smear_step [of n4 16 m i, OF b4] by simp
  have b6: "bit n6 i \<longleftrightarrow> (\<exists>j. i \<le> j \<and> j < i + 64 \<and> bit m j)" for i
    unfolding n6_def using smear_step [of n5 32 m i, OF b5] by simp
  have "bit m j \<Longrightarrow> j < 64" for j
    using bit_imp_le_length [of m j] by simp
  then have "bit n6 i \<longleftrightarrow> (\<exists>j. i \<le> j \<and> bit m j)"
    unfolding b6 by (meson trans_less_add2)
  then show ?thesis
    by (simp add: s high_bit_iff)
qed

lemma smear_eq_mask: "smear m = mask (floorlog 2 (unat m))"
proof (rule bit_word_eqI)
  fix i assume "i < LENGTH(64)"
  have "2 ^ i \<le> unat m \<longleftrightarrow> i < floorlog 2 (unat m)"
    using floorlog_le_iff [of 2 "unat m" i] by (simp add: not_le [symmetric] not_less)
  then show "bit (smear m) i \<longleftrightarrow> bit (mask (floorlog 2 (unat m)) :: size_t) i"
    using \<open>i < LENGTH(64)\<close> by (simp add: bit_smear bit_mask_iff)
qed

lemma smear_high: "smear m = - 1" if "2 ^ 63 \<le> m"
proof (rule bit_word_eqI)
  fix i assume i: "i < LENGTH(64)"
  have "(2::nat) ^ i \<le> 2 ^ 63"
    using i by (intro power_increasing) simp_all
  moreover have "2 ^ 63 \<le> unat m"
    using that by (simp add: word_le_nat_alt)
  ultimately have "2 ^ i \<le> unat m" by (rule order_trans)
  then show "bit (smear m) i \<longleftrightarrow> bit (- 1 :: size_t) i"
    using i by (simp add: bit_smear)
qed

lemma ceillog2_floorlog: "ceillog2 k = floorlog 2 (k - 1)" if "2 \<le> k"
proof (rule ceillog2_eqI)
  let ?L = "floorlog 2 (k - 1)"
  have b: "2 ^ (?L - 1) \<le> k - 1 \<and> k - 1 < 2 ^ ?L"
    using floorlog_bounds [of "k - 1" 2] that by simp
  have "?L \<noteq> 0" using that by (simp add: floorlog_eq_zero_iff)
  then have e: "(2::nat) ^ ?L = 2 * 2 ^ (?L - 1)"
    by (cases ?L) simp_all
  show "k \<le> 2 ^ ?L" using b by arith
  show "2 ^ ?L < 2 * k" using b e that by arith
qed

lemma unat_exp: "unat (2 ^ e :: size_t) = 2 ^ e" if "e < 64"
proof -
  have "(2 ^ e :: size_t) = of_nat (2 ^ e)" by simp
  then have "unat (2 ^ e :: size_t) = take_bit 64 (2 ^ e :: nat)"
    by (simp only: unsigned_of_nat) simp
  also have "\<dots> = 2 ^ e"
    using that by (simp add: take_bit_nat_eq_self)
  finally show ?thesis .
qed

lemma next_power_of_2_smear: "next_power_of_2 n = (if n = 0 then 1 else smear (n - 1) + 1)"
  by (simp add: next_power_of_2_def smear_def Let_def)

lemma next_power_of_2_exp:
  assumes "n \<noteq> 0" "n \<le> 2 ^ 63"
  shows "next_power_of_2 n = 2 ^ ceillog2 (unat n)" "ceillog2 (unat n) \<le> 63"
proof -
  have n1: "1 \<le> unat n" using assms(1) by (simp add: unat_gt_0 Suc_le_eq)
  have u: "unat (n - 1) = unat n - 1"
    using assms(1) by (simp add: unat_minus_one)
  have "unat n \<le> 2 ^ 63"
    using assms(2) by (simp add: word_le_nat_alt)
  then show c: "ceillog2 (unat n) \<le> 63"
    using n1 by (simp add: ceillog2_le_iff)
  have f: "floorlog 2 (unat n - Suc 0) = ceillog2 (unat n)"
  proof (cases "unat n = 1")
    case True then show ?thesis by (simp add: floorlog_eq_zero_iff)
  next
    case False then show ?thesis using n1 ceillog2_floorlog [of "unat n"] by simp
  qed
  show "next_power_of_2 n = 2 ^ ceillog2 (unat n)"
    using assms(1) by (simp add: next_power_of_2_smear smear_eq_mask u f mask_eq_decr_exp)
qed

lemma next_power_of_2_correct:
  assumes "n \<le> 2 ^ 63"
  shows "unat (next_power_of_2 n) = next_power_of_two (unat n)"
proof (cases "n = 0")
  case True
  then show ?thesis by (simp add: next_power_of_2_def next_power_of_two_def)
next
  case False
  from next_power_of_2_exp [OF False assms]
  show ?thesis by (simp add: next_power_of_two_def unat_exp)
qed

lemma next_power_of_2_overflow:
  assumes "2 ^ 63 < n"
  shows "next_power_of_2 n = 0"
proof -
  have "n \<noteq> 0" using assms by auto
  moreover have "2 ^ 63 \<le> n - 1"
    using assms  by (metis word_less_nat_alt word_le_nat_alt unat_minus_one calculation less_eq_Suc_le Suc_pred' unat_gt_0 not_less_eq_eq)
  ultimately show ?thesis
    by (simp add: next_power_of_2_smear smear_high)
qed

lemma next_power_of_2_is_power:
  assumes "k \<le> 2 ^ 63"
  shows "\<exists>e\<in>{..<64::nat}. next_power_of_2 k = 2 ^ e"
proof (cases "k = 0")
  case True
  have "\<exists>e\<in>{..<64::nat}. (1 :: size_t) = 2 ^ e"
    by (rule bexI [of _ 0]) simp_all
  then show ?thesis
    using True by (simp add: next_power_of_2_def)
next
  case False
  from next_power_of_2_exp [OF False assms]
  show ?thesis
    by (intro bexI [of _ "ceillog2 (unat k)"]) simp_all
qed

text \<open>The specification's function is what its name says.\<close>

lemma next_power_of_two_least:
  "k \<le> next_power_of_two k" "\<exists>e. next_power_of_two k = 2 ^ e"
  "k \<le> 2 ^ e \<Longrightarrow> next_power_of_two k \<le> 2 ^ e"
proof -
  show "k \<le> next_power_of_two k"
    by (simp add: next_power_of_two_def le_two_power_ceillog2)
  show "\<exists>e. next_power_of_two k = 2 ^ e"
    by (auto simp: next_power_of_two_def)
  show "next_power_of_two k \<le> 2 ^ e" if "k \<le> 2 ^ e"
    using that ceillog2_mono [of k "2 ^ e"] by (simp add: next_power_of_two_def)
qed

text \<open>
  When the byte count does not wrap around, the block has one cell for each of the
  \<open>count\<close> elements.
\<close>

lemma allocated_cells_exact:
  assumes "cell_size \<noteq> 0" "unat cell_size * unat count < 2 ^ 64"
  shows "allocated_cells cell_size count = unat count"
proof -
  have "unat (cell_size * count) = unat cell_size * unat count"
    using assms(2) by (simp add: unat_word_ariths)
  moreover have "0 < unat cell_size" using assms(1) by (simp add: unat_gt_0)
  ultimately show ?thesis by (simp add: allocated_cells_def)
qed

lemma MPMCQueue_new_Returned:
  assumes "node_size \<noteq> 0" "unat node_size * unat (next_power_of_2 k) < 2 ^ 64"
  shows "MPMCQueue_new node_size k =
     Returned
       \<lparr>enqueue_pos = 0, dequeue_pos = 0, capacity = next_power_of_2 k,
        slot_mask = next_power_of_2 k - 1,
        buffer = map (\<lambda>i. \<lparr>storage = None, sequence = of_nat i\<rparr>)
                   [0..<unat (next_power_of_2 k)]\<rparr>"
  using allocated_cells_exact [OF assms] by (simp add: MPMCQueue_new_def Let_def)

lemma RingBuffer_new_eq:
  assumes "elem_size \<noteq> 0" "unat elem_size * unat (next_power_of_2 k) < 2 ^ 64"
  shows "RingBuffer_new elem_size k =
       \<lparr>rb_storage = replicate (unat (next_power_of_2 k)) None,
        rb_capacity = next_power_of_2 k, rb_mask = next_power_of_2 k - 1,
        write_pos = 0, cached_read_pos = 0, read_pos = 0, cached_write_pos = 0\<rparr>"
  using allocated_cells_exact [OF assms] by (simp add: RingBuffer_new_def Let_def)

text \<open>
  For every requested capacity \<open>k\<close> up to \<open>2 ^ 63\<close> whose rounded capacity fits into
  the address space together with the size of a cell, both constructors store the
  least power of two that is at least \<open>k\<close>.
\<close>

lemma capacity_in_range:
  assumes "k \<le> 2 ^ 63" "cell_size \<noteq> 0"
    and "unat cell_size * next_power_of_two (unat k) < 2 ^ 64"
  shows "\<exists>q :: 'a MPMCQueue. MPMCQueue_new cell_size k = Returned q \<and>
           unat (capacity q) = next_power_of_two (unat k)"
    and "unat (rb_capacity (RingBuffer_new cell_size k :: 'a RingBuffer)) =
           next_power_of_two (unat k)"
    and "length (rb_storage (RingBuffer_new cell_size k :: 'a RingBuffer)) =
           next_power_of_two (unat k)"
proof -
  have c: "unat (next_power_of_2 k) = next_power_of_two (unat k)"
    using assms(1) by (rule next_power_of_2_correct)
  have fits: "unat cell_size * unat (next_power_of_2 k) < 2 ^ 64"
    using assms(3) by (simp only: c)
  show "\<exists>q :: 'a MPMCQueue. MPMCQueue_new cell_size k = Returned q \<and>
           unat (capacity q) = next_power_of_two (unat k)"
    by (simp add: MPMCQueue_new_Returned [OF assms(2) fits] c)
  show "unat (rb_capacity (RingBuffer_new cell_size k :: 'a RingBuffer)) =
           next_power_of_two (unat k)"
    by (simp add: RingBuffer_new_eq [OF assms(2) fits] c)
  show "length (rb_storage (RingBuffer_new cell_size k :: 'a RingBuffer)) =
           next_power_of_two (unat k)"
    by (simp add: RingBuffer_new_eq [OF assms(2) fits] c)
qed

lemma capacity_examples:
  "\<exists>q :: 'a MPMCQueue. MPMCQueue_new 16 5 = Returned q \<and> capacity q = 8"
  "\<exists>q :: 'a MPMCQueue. MPMCQueue_new 16 8 = Returned q \<and> capacity q = 8"
  "\<exists>q :: 'a MPMCQueue. MPMCQueue_new 16 0 = Returned q \<and> capacity q = 1"
  "rb_capacity (RingBuffer_new 4 5 :: 'a RingBuffer) = 8"
  "rb_capacity (RingBuffer_new 4 8 :: 'a RingBuffer) = 8"
  "rb_capacity (RingBuffer_new 4 0 :: 'a RingBuffer) = 1"
proof -
  have n: "next_power_of_2 5 = 8" "next_power_of_2 8 = 8" "next_power_of_2 0 = 1"
    by (simp_all add: next_power_of_2_def Let_def)
  show "\<exists>q :: 'a MPMCQueue. MPMCQueue_new 16 5 = Returned q \<and> capacity q = 8"
    by (subst MPMCQueue_new_Returned) (simp_all add: n)
  show "\<exists>q :: 'a MPMCQueue. MPMCQueue_new 16 8 = Returned q \<and> capacity q = 8"
    by (subst MPMCQueue_new_Returned) (simp_all add: n)
  show "\<exists>q :: 'a MPMCQueue. MPMCQueue_new 16 0 = Returned q \<and> capacity q = 1"
    by (subst MPMCQueue_new_Returned) (simp_all add: n)
  show "rb_capacity (RingBuffer_new 4 5 :: 'a RingBuffer) = 8"
    "rb_capacity (RingBuffer_new 4 8 :: 'a RingBuffer) = 8"
    "rb_capacity (RingBuffer_new 4 0 :: 'a RingBuffer) = 1"
    by (simp_all add: RingBuffer_new_def Let_def n)
qed

text \<open>
  The size of a \<^verbatim>\<open>Node\<close> is a multiple of 8, the size of its sequence counter. From
  the rounded capacity \<open>2 ^ 61\<close> on, the byte count wraps around to 0 and the
  initialisation loop of the queue's constructor leaves the block.
\<close>

lemma pow_ge_64_zero: "64 \<le> n \<Longrightarrow> (2 :: size_t) ^ n = 0"
  by simp

lemma MPMCQueue_new_overflow:
  assumes "k \<le> 2 ^ 63" "2 ^ 61 \<le> next_power_of_2 k"
  shows "MPMCQueue_new (8 * m) k = Undefined"
proof -
  from next_power_of_2_is_power [OF assms(1)]
  obtain e where e: "e < 64" "next_power_of_2 k = 2 ^ e" by auto
  have "unat (2 ^ 61 :: size_t) \<le> unat (2 ^ e :: size_t)"
    using assms(2) unfolding e(2) by (simp only: word_le_nat_alt)
  then have "(2::nat) ^ 61 \<le> 2 ^ e"
    using e(1) by (simp add: unat_exp)
  then have e61: "61 \<le> e" by (rule power_le_imp_le_exp [rotated]) simp
  have "(8 * m) * (2 ^ e :: size_t) = m * 2 ^ (e + 3)"
    by (simp add: power_add)
  also have "\<dots> = 0" using e61 by (simp add: pow_ge_64_zero)
  finally have z: "allocated_cells (8 * m) (2 ^ e) = 0"
    by (simp add: allocated_cells_def)
  have "0 < unat (2 ^ e :: size_t)" using e(1) by (simp add: unat_exp)
  then show ?thesis
    by (simp add: MPMCQueue_new_def e(2) z)
qed

text \<open>
  Claim C5 does not hold of the constructors. Requested capacity \<open>2 ^ 63 + 1\<close>: the
  next power of two is \<open>2 ^ 64\<close>, which no \<^verbatim>\<open>size_t\<close> holds; \<open>next_power_of_2\<close>
  wraps around, and both constructors return an object whose capacity is 0, which is
  no power of two, whose mask has all bits set and which owns no slot, whatever the
  size of a cell. Requested capacity \<open>2 ^ 63\<close> with the 16-byte node of
  \<^verbatim>\<open>MPMCQueue<int>\<close>: the rounded capacity is \<open>2 ^ 63\<close>, but the byte count
  \<open>16 * 2 ^ 63\<close> wraps to 0, and the initialisation loop of the constructor writes
  behind the empty block.
\<close>

theorem capacity_wraps_to_zero:
  "(MPMCQueue_new node_size (2 ^ 63 + 1) :: 'a MPMCQueue outcome) =
     Returned \<lparr>enqueue_pos = 0, dequeue_pos = 0, capacity = 0, slot_mask = - 1, buffer = []\<rparr> \<and>
   rb_capacity (RingBuffer_new elem_size (2 ^ 63 + 1) :: 'a RingBuffer) = 0 \<and>
   rb_storage (RingBuffer_new elem_size (2 ^ 63 + 1) :: 'a RingBuffer) = [] \<and>
   next_power_of_two (unat (2 ^ 63 + 1 :: size_t)) = 2 ^ 64 \<and>
   next_power_of_2 (2 ^ 63) = 2 ^ 63 \<and>
   (MPMCQueue_new 16 (2 ^ 63) :: 'a MPMCQueue outcome) = Undefined"
proof -
  have z: "next_power_of_2 (2 ^ 63 + 1) = 0"
    by (rule next_power_of_2_overflow) simp
  have a: "allocated_cells c 0 = 0" for c by (simp add: allocated_cells_def)
  have p: "next_power_of_2 (2 ^ 63) = 2 ^ 63"
    by (simp add: next_power_of_2_def Let_def)
  have s: "next_power_of_two (unat (2 ^ 63 + 1 :: size_t)) = 2 ^ 64"
    by (simp add: next_power_of_two_def ceillog2_code ceillog2_aux.simps)
  have u: "(MPMCQueue_new 16 (2 ^ 63) :: 'a MPMCQueue outcome) = Undefined"
    unfolding MPMCQueue_new_def p Let_def allocated_cells_def by simp
  have q: "(MPMCQueue_new node_size (2 ^ 63 + 1) :: 'a MPMCQueue outcome) =
     Returned \<lparr>enqueue_pos = 0, dequeue_pos = 0, capacity = 0, slot_mask = - 1, buffer = []\<rparr>"
    unfolding MPMCQueue_new_def z Let_def a by simp
  have r: "rb_capacity (RingBuffer_new elem_size (2 ^ 63 + 1) :: 'a RingBuffer) = 0"
    "rb_storage (RingBuffer_new elem_size (2 ^ 63 + 1) :: 'a RingBuffer) = []"
    unfolding RingBuffer_new_def z Let_def a by simp_all
  from q r s p u show ?thesis by (intro conjI)
qed

section \<open>Unbounded stack\<close>

lemma deref_new_node:
  "deref (h @ [Some n]) (length h) = Some n"
  "a < length h \<Longrightarrow> deref (h @ [x]) a = deref h a"
  by (simp_all add: deref_def nth_append)

lemma push_eq:
  "push s v =
     Some (Returned (),
           \<lparr>s_head = Some (length (s_heap s)),
            s_heap = s_heap s @ [Some \<lparr>data = v, next_node = s_head s\<rparr>]\<rparr>)"
  by (subst push_def, simp add: new_node_def, subst push_loop.simps)
     (simp add: deref_def)

lemma try_pop_null:
  "s_head s = None \<Longrightarrow> try_pop s r = Some (Returned False, r, s)"
  by (subst try_pop_def, subst pop_loop.simps) simp

lemma try_pop_node:
  "s_head s = Some a \<Longrightarrow> deref (s_heap s) a = Some node \<Longrightarrow>
   try_pop s r =
     Some (Returned True, data node,
           s\<lparr>s_head := next_node node, s_heap := delete_node (s_heap s) a\<rparr>)"
  by (subst try_pop_def, subst pop_loop.simps) simp

lemma try_pop_dangling:
  "s_head s = Some a \<Longrightarrow> deref (s_heap s) a = None \<Longrightarrow>
   try_pop s r = Some (Undefined, r, s)"
  by (subst try_pop_def, subst pop_loop.simps) simp

lemma try_pop_total: "\<exists>res r' s'. try_pop s r = Some (res, r', s') \<and> (res = Returned False) = (s_head s = None)"
proof (cases "s_head s")
  case None
  then show ?thesis by (simp add: try_pop_null)
next
  case (Some a)
  then show ?thesis
    by (cases "deref (s_heap s) a") (simp_all add: try_pop_node try_pop_dangling)
qed

text \<open>
  Claim C7. From any state of the stack, \<open>push a; push b\<close> followed by two calls of
  \<open>try_pop\<close> delivers \<open>b\<close> and then \<open>a\<close>, and the head is back where it was. Every
  call of \<open>try_pop\<close> returns, it returns false exactly when the head is null, and then
  neither the stack nor the caller's variable has changed.
\<close>

theorem stack_lifo:
  "(\<exists>s1 s2 s3 s4.
      push s a = Some (Returned (), s1) \<and> push s1 b = Some (Returned (), s2) \<and>
      try_pop s2 r = Some (Returned True, b, s3) \<and>
      try_pop s3 r' = Some (Returned True, a, s4) \<and> s_head s4 = s_head s) \<and>
   (\<exists>res out s'. try_pop s r = Some (res, out, s') \<and> (res = Returned False) = (s_head s = None)) \<and>
   (try_pop s r = Some (Returned False, r, s)) = (s_head s = None)"
proof -
  let ?n = "length (s_heap s)"
  let ?s1 = "\<lparr>s_head = Some ?n, s_heap = s_heap s @ [Some \<lparr>data = a, next_node = s_head s\<rparr>]\<rparr>"
  let ?s2 = "\<lparr>s_head = Some (Suc ?n),
             s_heap = s_heap ?s1 @ [Some \<lparr>data = b, next_node = Some ?n\<rparr>]\<rparr>"
  let ?s3 = "?s2\<lparr>s_head := Some ?n, s_heap := delete_node (s_heap ?s2) (Suc ?n)\<rparr>"
  let ?s4 = "?s3\<lparr>s_head := s_head s, s_heap := delete_node (s_heap ?s3) ?n\<rparr>"
  have 1: "push s a = Some (Returned (), ?s1)" by (rule push_eq)
  have 2: "push ?s1 b = Some (Returned (), ?s2)" by (simp add: push_eq)
  have 3: "try_pop ?s2 r = Some (Returned True, b, ?s3)"
    by (subst try_pop_node [where a = "Suc ?n" and node = "\<lparr>data = b, next_node = Some ?n\<rparr>"])
       (simp_all add: deref_def nth_append)
  have 4: "try_pop ?s3 r' = Some (Returned True, a, ?s4)"
    by (subst try_pop_node [where a = "?n" and node = "\<lparr>data = a, next_node = s_head s\<rparr>"])
       (simp_all add: deref_def nth_append delete_node_def nth_list_update)
  have 5: "s_head ?s4 = s_head s" by simp
  have "(try_pop s r = Some (Returned False, r, s)) = (s_head s = None)"
    using try_pop_total [of s r] by (auto simp: try_pop_null)
  with 1 2 3 4 5 try_pop_total [of s r] show ?thesis by blast
qed

section \<open>Unbounded queue\<close>

lemma pop_empty:
  assumes "q_head q = Some d" "q_tail q = Some d" "deref (q_heap q) d = Some hn"
    "next_node hn = None"
  shows "pop q r = Some (Returned False, r, q)"
  using assms by (subst pop.simps) simp

lemma pop_take:
  assumes "q_head q = Some d" "q_tail q \<noteq> Some d" "deref (q_heap q) d = Some hn"
    "next_node hn = Some n" "deref (q_heap q) n = Some nn"
  shows "pop q r =
     Some (Returned True, data nn,
           q\<lparr>q_head := Some n, q_heap := delete_node (q_heap q) d\<rparr>)"
  using assms by (subst pop.simps) auto

lemma pop_help:
  assumes "q_head q = Some d" "q_tail q = Some d" "deref (q_heap q) d = Some hn"
    "next_node hn = Some n"
  shows "pop q r = pop (q\<lparr>q_tail := Some n\<rparr>) r"
  using assms by (subst pop.simps) simp

lemma queue_inv_new: "queue_inv (LockFreeQueue_new x) 0 []"
  by (simp add: queue_inv_def LockFreeQueue_new_def new_node_def deref_def)

lemma deref_update_other: "a \<noteq> d \<Longrightarrow> deref (h[d := x]) a = deref h a"
  by (simp add: deref_def)

lemma q_chain_heap_update:
  "q_chain h a as \<Longrightarrow> d \<notin> set (a # as) \<Longrightarrow> q_chain (h[d := x]) a as"
  by (induction as arbitrary: a) (auto simp: deref_update_other split: option.splits)

text \<open>
  Claim C6, as amended. On a well-formed queue (dummy node \<open>d\<close> at the head, followed
  by the nodes \<open>as\<close>) \<open>pop\<close> always returns. It returns false, changing nothing,
  exactly when \<open>head = tail\<close> and the head's \<open>next\<close> is null. Otherwise it returns
  true, the value handed out is the data of the node that was \<open>head->next\<close>, that node
  is the new head (and dummy), and a tail that still pointed to the old head has been
  moved forward. The old head node is not kept for a later reclamation: in the state in
  which \<open>pop\<close> returns, its cell \<open>d\<close> of the heap is free, and every other cell is as
  it was. The queue stays well formed.
\<close>

theorem pop_spec:
  assumes "queue_inv q d as"
  shows "\<exists>hn. deref (q_heap q) d = Some hn \<and>
     (if q_head q = q_tail q \<and> next_node hn = None
      then pop q r = Some (Returned False, r, q) \<and> as = []
      else \<exists>n nn. next_node hn = Some n \<and> deref (q_heap q) n = Some nn \<and>
             pop q r =
               Some (Returned True, data nn,
                     \<lparr>q_head = Some n,
                      q_tail = (if q_tail q = Some d then Some n else q_tail q),
                      q_heap = (q_heap q)[d := None]\<rparr>) \<and>
             deref ((q_heap q)[d := None]) d = None \<and>
             (\<forall>a. a \<noteq> d \<longrightarrow> deref ((q_heap q)[d := None]) a = deref (q_heap q) a) \<and>
             queue_inv
               \<lparr>q_head = Some n,
                q_tail = (if q_tail q = Some d then Some n else q_tail q),
                q_heap = (q_heap q)[d := None]\<rparr> n (tl as))"
proof (cases as)
  case Nil
  with assms obtain hn where h: "q_head q = Some d" "deref (q_heap q) d = Some hn"
    "next_node hn = None" "q_tail q = Some d"
    by (auto simp: queue_inv_def split: option.splits)
  then show ?thesis
    using Nil by (simp add: pop_empty)
next
  case (Cons n bs)
  with assms obtain hn where h: "q_head q = Some d" "deref (q_heap q) d = Some hn"
    "next_node hn = Some n" "q_chain (q_heap q) n bs" "d \<noteq> n" "d \<notin> set bs" "distinct (n # bs)"
    by (auto simp: queue_inv_def split: option.splits)
  from h(4) obtain nn where nn: "deref (q_heap q) n = Some nn"
    by (cases bs) (auto split: option.splits)
  from assms obtain t where t: "q_tail q = Some t" "t \<in> set (d # n # bs)"
    by (auto simp: queue_inv_def Cons split: option.splits)
  define q' where "q' = \<lparr>q_head = Some n,
               q_tail = (if q_tail q = Some d then Some n else q_tail q),
               q_heap = (q_heap q)[d := None]\<rparr>"
  have q': "q' = q\<lparr>q_head := Some n,
               q_tail := (if q_tail q = Some d then Some n else q_tail q),
               q_heap := delete_node (q_heap q) d\<rparr>"
    by (simp add: q'_def delete_node_def)
  have p: "pop q r = Some (Returned True, data nn, q')"
  proof (cases "t = d")
    case True
    have "pop q r = pop (q\<lparr>q_tail := Some n\<rparr>) r"
      using h t True by (simp add: pop_help)
    also have "\<dots> = Some (Returned True, data nn, q\<lparr>q_tail := Some n\<rparr>\<lparr>q_head := Some n, q_heap := delete_node (q_heap (q\<lparr>q_tail := Some n\<rparr>)) d\<rparr>)"
      using h nn by (intro pop_take [where hn = hn]) simp_all
    finally show ?thesis using t True by (simp add: q')
  next
    case False
    then show ?thesis
      using h nn t pop_take [of q d hn n nn r] by (simp add: q')
  qed
  have c: "q_chain ((q_heap q)[d := None]) n bs"
    using h by (intro q_chain_heap_update) auto
  have i: "queue_inv q' n (tl as)"
    using h t c by (auto simp: queue_inv_def Cons q'_def)
  have f: "deref ((q_heap q)[d := None]) d = None"
    by (simp add: deref_def)
  have o: "\<forall>a. a \<noteq> d \<longrightarrow> deref ((q_heap q)[d := None]) a = deref (q_heap q) a"
    by (simp add: deref_update_other)
  from h nn p i f o show ?thesis unfolding q'_def by auto
qed

text \<open>
  Claim C6 on the freshly constructed queue (empty: \<open>pop\<close> returns false) and on the
  queue after one \<open>push 7\<close> (\<open>pop\<close> delivers 7 and frees the old dummy node).
\<close>

theorem pop_spec_witness:
  "queue_inv (LockFreeQueue_new (0::nat)) 0 [] \<and>
   pop (LockFreeQueue_new (0::nat)) 5 = Some (Returned False, 5, LockFreeQueue_new 0) \<and>
   q_push (LockFreeQueue_new (0::nat)) 7 =
     Some (Returned (),
           \<lparr>q_head = Some 0, q_tail = Some 1,
            q_heap = [Some \<lparr>data = 0, next_node = Some 1\<rparr>, Some \<lparr>data = 7, next_node = None\<rparr>]\<rparr>) \<and>
   queue_inv
     \<lparr>q_head = Some 0, q_tail = Some 1,
      q_heap = [Some \<lparr>data = 0::nat, next_node = Some 1\<rparr>, Some \<lparr>data = 7, next_node = None\<rparr>]\<rparr>
     0 [1] \<and>
   pop \<lparr>q_head = Some 0, q_tail = Some 1,
        q_heap = [Some \<lparr>data = 0::nat, next_node = Some 1\<rparr>, Some \<lparr>data = 7, next_node = None\<rparr>]\<rparr> 5 =
     Some (Returned True, 7,
           \<lparr>q_head = Some 1, q_tail = Some 1,
            q_heap = [None, Some \<lparr>data = 7, next_node = None\<rparr>]\<rparr>)"
proof -
  let ?q0 = "LockFreeQueue_new (0::nat)"
  let ?q1 = "\<lparr>q_head = Some 0, q_tail = Some 1,
      q_heap = [Some \<lparr>data = 0::nat, next_node = Some 1\<rparr>, Some \<lparr>data = 7, next_node = None\<rparr>]\<rparr>"
  have i0: "queue_inv ?q0 0 []" by (rule queue_inv_new)
  have i1: "queue_inv ?q1 0 [1]"
    by (simp add: queue_inv_def deref_def)
  have p: "q_push ?q0 7 = Some (Returned (), ?q1)"
    by (subst q_push_def, simp add: LockFreeQueue_new_def new_node_def, subst link_loop.simps)
       (simp add: deref_def)
  have "pop ?q0 5 = Some (Returned False, 5, ?q0)"
    using pop_spec [OF i0, of 5]
    by (auto simp: LockFreeQueue_new_def new_node_def deref_def split: if_splits)
  moreover have "pop ?q1 5 = Some (Returned True, 7,
           \<lparr>q_head = Some 1, q_tail = Some 1,
            q_heap = [None, Some \<lparr>data = 7, next_node = None\<rparr>]\<rparr>)"
    using pop_spec [OF i1, of 5]
    by (auto simp: deref_def split: if_splits)
  ultimately show ?thesis using i0 i1 p by simp
qed

text \<open>
  Claim C6 as stated (the old head is retired, not freed synchronously) fails on the
  queue that holds the one element 7: the dummy node lives in cell 0 before the call,
  and in the state in which \<open>pop\<close> returns true cell 0 is already free, so that a
  pointer to the old head read before the call dangles.
\<close>

theorem pop_frees_old_head:
  "deref (q_heap \<lparr>q_head = Some 0, q_tail = Some 1,
        q_heap = [Some \<lparr>data = 0::nat, next_node = Some 1\<rparr>, Some \<lparr>data = 7, next_node = None\<rparr>]\<rparr>) 0 =
     Some \<lparr>data = 0, next_node = Some 1\<rparr> \<and>
   (\<exists>q'. pop \<lparr>q_head = Some 0, q_tail = Some 1,
        q_heap = [Some \<lparr>data = 0::nat, next_node = Some 1\<rparr>, Some \<lparr>data = 7, next_node = None\<rparr>]\<rparr> 5 =
       Some (Returned True, 7, q') \<and> deref (q_heap q') 0 = None)"
proof -
  have "pop \<lparr>q_head = Some 0, q_tail = Some 1,
        q_heap = [Some \<lparr>data = 0::nat, next_node = Some 1\<rparr>, Some \<lparr>data = 7, next_node = None\<rparr>]\<rparr> 5 =
     Some (Returned True, 7,
           \<lparr>q_head = Some 1, q_tail = Some 1,
            q_heap = [None, Some \<lparr>data = 7, next_node = None\<rparr>]\<rparr>)"
    by (subst pop.simps) (simp add: deref_def delete_node_def)
  then show ?thesis by (simp add: deref_def)
qed

section \<open>Indexing a power-of-two array by a masked cursor\<close>

lemma and_mask_exp: "x AND (2 ^ e - 1) = take_bit e (x :: size_t)"
  by (simp add: take_bit_eq_mask mask_eq_exp_minus_1)

lemma unat_and_mask_exp: "unat ((x :: size_t) AND (2 ^ e - 1)) = unat x mod 2 ^ e"
  by (simp only: and_mask_exp unsigned_take_bit_eq) (simp add: take_bit_eq_mod)

lemma unat_of_nat_small: "n < 2 ^ 64 \<Longrightarrow> unat (of_nat n :: size_t) = n"
  by (simp add: unsigned_of_nat take_bit_nat_eq_self)

lemma unat_index:
  fixes p :: size_t
  assumes "e \<le> 64"
  shows "unat ((p + of_nat i) AND (2 ^ e - 1)) = (unat p + i) mod 2 ^ e"
proof -
  have d: "(2::nat) ^ e dvd 2 ^ 64"
    using assms by (rule le_imp_power_dvd)
  have "unat (p + of_nat i) = (unat p + i mod 2 ^ 64) mod 2 ^ 64"
    by (simp add: unat_word_ariths unsigned_of_nat take_bit_eq_mod)
  also have "\<dots> = (unat p + i) mod 2 ^ 64"
    by (simp add: mod_add_right_eq)
  finally show ?thesis
    using d by (simp add: unat_and_mask_exp mod_mod_cancel)
qed

lemma mod_add_inj:
  fixes a i j m :: nat
  assumes "i < m" "j < m" "(a + i) mod m = (a + j) mod m"
  shows "i = j"
proof -
  have *: "i = j" if "i \<le> j" "i < m" "j < m" "(a + i) mod m = (a + j) mod m" for i j
  proof -
    have "m dvd (a + j) - (a + i)"
      using that by (metis mod_eq_dvd_iff_nat add_le_cancel_left)
    then have "m dvd j - i" by simp
    moreover have "j - i < m" using that by simp
    ultimately have "j - i = 0" by (meson dvd_imp_le not_less zero_less_iff_neq_zero)
    then show ?thesis using that by simp
  qed
  show ?thesis
  proof (cases "i \<le> j")
    case True then show ?thesis using * assms by blast
  next
    case False 
    then have "j = i" using * [of j i] assms by simp
    then show ?thesis by simp
  qed
qed

lemma index_inj:
  fixes p :: size_t
  assumes "e \<le> 64" "i < 2 ^ e" "j < 2 ^ e"
    and "unat ((p + of_nat i) AND (2 ^ e - 1)) = unat ((p + of_nat j) AND (2 ^ e - 1))"
  shows "i = j"
  using assms mod_add_inj [of i "2 ^ e" j "unat p"] by (simp add: unat_index)

lemma index_less: "unat ((x :: size_t) AND (2 ^ e - 1)) < 2 ^ e"
  by (simp add: unat_and_mask_exp)

lemma index_wrap:
  fixes p :: size_t
  assumes "e < 64"
  shows "unat ((p + 2 ^ e) AND (2 ^ e - 1)) = unat (p AND (2 ^ e - 1))"
proof -
  have "(2 ^ e :: size_t) = of_nat (2 ^ e)" by simp
  then have "unat ((p + 2 ^ e) AND (2 ^ e - 1)) = (unat p + 2 ^ e) mod 2 ^ e"
    using assms unat_index [of e p "2 ^ e"] by simp
  then show ?thesis by (simp add: unat_and_mask_exp)
qed

section \<open>SPSC ring buffer: one call\<close>

lemma rb_wf_new:
  assumes "k \<le> 2 ^ 63" "elem_size \<noteq> 0"
    and "unat elem_size * unat (next_power_of_2 k) < 2 ^ 64"
  shows "rb_wf (RingBuffer_new elem_size k)"
  using next_power_of_2_is_power [OF assms(1)]
  by (simp add: rb_wf_def RingBuffer_new_eq [OF assms(2,3)])

lemma cell_index_wf:
  assumes "rb_wf r"
  shows "cell_index r pos = unat pos mod unat (rb_capacity r)"
    and "cell_index r pos < length (rb_storage r)"
proof -
  from assms obtain e where e: "e < 64" "rb_capacity r = 2 ^ e"
    "rb_mask r = 2 ^ e - 1" "length (rb_storage r) = unat (rb_capacity r)"
    by (auto simp: rb_wf_def)
  show "cell_index r pos = unat pos mod unat (rb_capacity r)"
    using e by (simp add: cell_index_def unat_and_mask_exp unat_exp)
  then show "cell_index r pos < length (rb_storage r)"
    using e by (simp add: unat_exp)
qed

lemma rb_try_emplace_eq: "rb_try_emplace r item = try_write r item"
  by (simp add: rb_try_emplace_def try_write_def)

text \<open>
  Claim C8, as amended. \<open>try_write\<close> (and \<open>try_emplace\<close>, which has the same body)
  returns false exactly when the buffer is full or the element's constructor throws.
  Full means: the check \<open>write_pos - cached_read_pos \<ge> capacity\<close> holds for the cached
  cursor and, after the one refresh of the cache from \<open>read_pos\<close>, for the fresh
  value as well. A call that returns false changes nothing but the cache. A call that
  returns true has constructed the element in slot \<open>write_pos mod capacity\<close> and then
  stored \<open>write_pos + 1\<close>.
\<close>

theorem try_write_spec:
  assumes "rb_wf r"
  shows
    "(let full = (rb_capacity r \<le> write_pos r - cached_read_pos r \<and> rb_full r);
          r0 = (if rb_capacity r \<le> write_pos r - cached_read_pos r
                then r\<lparr>cached_read_pos := read_pos r\<rparr> else r)
      in try_write r item =
           (if full \<or> item = None then (Returned False, r0)
            else (Returned True,
                  r0\<lparr>rb_storage := (rb_storage r)[unat (write_pos r) mod unat (rb_capacity r) := item],
                     write_pos := write_pos r + 1\<rparr>))) \<and>
     rb_try_emplace r item = try_write r item"
proof -
  have i: "cell_index (r\<lparr>cached_read_pos := c\<rparr>) pos = unat pos mod unat (rb_capacity r)" 
    "cell_index r pos = unat pos mod unat (rb_capacity r)" for c pos
    using cell_index_wf(1) [OF assms] by (simp_all add: cell_index_def)
  have l: "\<not> length (rb_storage r) \<le> unat pos mod unat (rb_capacity r)" for pos :: size_t
    using cell_index_wf [OF assms, of pos] by simp
  show ?thesis
    by (cases item)
      (auto simp: try_write_def rb_try_emplace_eq construct_and_publish_def Let_def rb_full_def i l)
qed

text \<open>
  Claim C8 on the buffer of capacity 2: the first write lands in slot 0, the third is
  refused because the buffer is full.
\<close>

theorem try_write_spec_witness:
  "rb_wf (RingBuffer_new 8 2 :: nat RingBuffer) \<and>
   try_write (RingBuffer_new 8 2 :: nat RingBuffer) (Some 7) =
     (Returned True,
      \<lparr>rb_storage = [Some 7, None], rb_capacity = 2, rb_mask = 1, write_pos = 1,
       cached_read_pos = 0, read_pos = 0, cached_write_pos = 0\<rparr>) \<and>
   rb_wf \<lparr>rb_storage = [Some (7::nat), Some 8], rb_capacity = 2, rb_mask = 1, write_pos = 2,
       cached_read_pos = 0, read_pos = 0, cached_write_pos = 0\<rparr> \<and>
   try_write \<lparr>rb_storage = [Some (7::nat), Some 8], rb_capacity = 2, rb_mask = 1, write_pos = 2,
       cached_read_pos = 0, read_pos = 0, cached_write_pos = 0\<rparr> (Some 9) =
     (Returned False,
      \<lparr>rb_storage = [Some 7, Some 8], rb_capacity = 2, rb_mask = 1, write_pos = 2,
       cached_read_pos = 0, read_pos = 0, cached_write_pos = 0\<rparr>)"
proof -
  let ?r2 = "\<lparr>rb_storage = [Some (7::nat), Some 8], rb_capacity = 2, rb_mask = 1, write_pos = 2,
       cached_read_pos = 0, read_pos = 0, cached_write_pos = 0\<rparr>"
  have n: "(RingBuffer_new 8 2 :: nat RingBuffer) =
     \<lparr>rb_storage = [None, None], rb_capacity = 2, rb_mask = 1, write_pos = 0,
       cached_read_pos = 0, read_pos = 0, cached_write_pos = 0\<rparr>"
    by code_simp
  have "\<exists>e\<in>{..<64::nat}. (2 :: size_t) = 2 ^ e"
    by (rule bexI [of _ 1]) simp_all
  then have w0: "rb_wf (RingBuffer_new 8 2 :: nat RingBuffer)"
    unfolding n by (simp add: rb_wf_def)
  have "\<exists>e\<in>{..<64::nat}. (2 :: size_t) = 2 ^ e"
    by (rule bexI [of _ 1]) simp_all
  then have w2: "rb_wf ?r2"
    by (simp add: rb_wf_def)
  show ?thesis
    using w0 w2 try_write_spec [OF w0, of "Some 7"] try_write_spec [OF w2, of "Some 9"]
    by (simp add: n Let_def rb_full_def)
qed

text \<open>
  Claim C8 as stated fails when the constructor throws: the new buffer of capacity 2 is
  not full, yet \<open>try_write\<close> returns false.
\<close>

theorem try_write_counterexample:
  "fst (try_write (RingBuffer_new 8 2 :: nat RingBuffer) None) = Returned False \<and>
   \<not> rb_full (RingBuffer_new 8 2 :: nat RingBuffer)"
proof -
  have n: "(RingBuffer_new 8 2 :: nat RingBuffer) =
     \<lparr>rb_storage = [None, None], rb_capacity = 2, rb_mask = 1, write_pos = 0,
       cached_read_pos = 0, read_pos = 0, cached_write_pos = 0\<rparr>"
    by code_simp
  show ?thesis
    unfolding n
    by (simp add: try_write_def construct_and_publish_def cell_index_def rb_full_def)
qed

section \<open>Bounded MPMC queue: one call\<close>

lemma seq_diff_eq_0: "seq_diff a b = 0 \<longleftrightarrow> a = b"
  by (simp add: seq_diff_def signed_eq_0_iff)

text \<open>A loop that is sent back to the cursor it came with never ends.\<close>

lemma enqueue_loop_Some_not_spin:
  assumes "enqueue_loop q pos = Some y"
  shows "enqueue_attempt q pos \<noteq> Retry pos"
  by (rule enqueue_loop.raw_induct [OF _ assms]) (auto split: attempt.splits)

lemma dequeue_loop_Some_not_spin:
  assumes "dequeue_loop q pos = Some y"
  shows "dequeue_attempt q pos \<noteq> Retry pos"
  by (rule dequeue_loop.raw_induct [OF _ assms]) (auto split: attempt.splits)

lemma enqueue_loop_spin:
  "enqueue_attempt q pos = Retry pos \<Longrightarrow> enqueue_loop q pos = None"
  using enqueue_loop_Some_not_spin [of q pos] by (cases "enqueue_loop q pos") auto

lemma dequeue_loop_spin:
  "dequeue_attempt q pos = Retry pos \<Longrightarrow> dequeue_loop q pos = None"
  using dequeue_loop_Some_not_spin [of q pos] by (cases "dequeue_loop q pos") auto

text \<open>
  What \<open>try_emplace\<close> does when no other thread moves the cursor: everything is decided
  by the slot at \<open>enqueue_pos\<close>.
\<close>

lemma try_emplace_cases:
  "try_emplace q item =
     (let pos = enqueue_pos q; i = slot_index q pos in
      if length (buffer q) \<le> i then Some (Undefined, q)
      else
        let d = seq_diff (sequence (buffer q ! i)) pos in
        if d = 0 then
          (case item of
             None \<Rightarrow>
               Some (Thrown,
                     q\<lparr>enqueue_pos := pos + 1,
                       buffer := (buffer q)[i := (buffer q ! i)\<lparr>sequence := pos + capacity q\<rparr>]\<rparr>)
           | Some v \<Rightarrow>
               Some (Returned True,
                     q\<lparr>enqueue_pos := pos + 1,
                       buffer := (buffer q)[i := (buffer q ! i)\<lparr>storage := Some v, sequence := pos + 1\<rparr>]\<rparr>))
        else if d < 0 then Some (Returned False, q)
        else None)"
proof -
  let ?pos = "enqueue_pos q"
  let ?i = "slot_index q ?pos"
  let ?d = "seq_diff (sequence (buffer q ! ?i)) ?pos"
  consider (out) "length (buffer q) \<le> ?i"
    | (claim) "\<not> length (buffer q) \<le> ?i" "?d = 0"
    | (bound) "\<not> length (buffer q) \<le> ?i" "?d < 0"
    | (spin) "\<not> length (buffer q) \<le> ?i" "?d > 0"
    by linarith
  then show ?thesis
  proof cases
    case out
    then have "enqueue_loop q ?pos = Some Fault"
      by (subst enqueue_loop.simps) (simp add: enqueue_attempt_def)
    then show ?thesis using out by (simp add: try_emplace_def Let_def)
  next
    case claim
    then have "enqueue_loop q ?pos = Some (Slot ?pos (q\<lparr>enqueue_pos := ?pos + 1\<rparr>))"
      by (subst enqueue_loop.simps) (simp add: enqueue_attempt_def Let_def)
    then show ?thesis
      using claim
      by (simp add: try_emplace_def Let_def slot_index_def set_slot_def split: option.split)
  next
    case bound
    then have "enqueue_loop q ?pos = Some NoSlot"
      by (subst enqueue_loop.simps) (simp add: enqueue_attempt_def Let_def)
    then show ?thesis using bound by (simp add: try_emplace_def Let_def)
  next
    case spin
    then have "enqueue_attempt q ?pos = Retry ?pos"
      by (simp add: enqueue_attempt_def Let_def)
    then have "enqueue_loop q ?pos = None" by (rule enqueue_loop_spin)
    then show ?thesis using spin by (simp add: try_emplace_def Let_def)
  qed
qed

lemma dequeue_loop_cases:
  "dequeue_loop q (dequeue_pos q) =
     (let pos = dequeue_pos q; i = slot_index q pos in
      if length (buffer q) \<le> i then Some Fault
      else
        let d = seq_diff (sequence (buffer q ! i)) (pos + 1) in
        if d = 0 then Some (Slot pos (q\<lparr>dequeue_pos := pos + 1\<rparr>))
        else if d < 0 then Some NoSlot
        else None)"
proof -
  let ?pos = "dequeue_pos q"
  let ?i = "slot_index q ?pos"
  let ?d = "seq_diff (sequence (buffer q ! ?i)) (?pos + 1)"
  consider (out) "length (buffer q) \<le> ?i"
    | (claim) "\<not> length (buffer q) \<le> ?i" "?d = 0"
    | (bound) "\<not> length (buffer q) \<le> ?i" "?d < 0"
    | (spin) "\<not> length (buffer q) \<le> ?i" "?d > 0"
    by linarith
  then show ?thesis
  proof cases
    case out
    then show ?thesis
      by (subst dequeue_loop.simps) (simp add: dequeue_attempt_def)
  next
    case claim
    then show ?thesis
      by (subst dequeue_loop.simps) (simp add: dequeue_attempt_def Let_def)
  next
    case bound
    then show ?thesis
      by (subst dequeue_loop.simps) (simp add: dequeue_attempt_def Let_def)
  next
    case spin
    then have "dequeue_attempt q ?pos = Retry ?pos"
      by (simp add: dequeue_attempt_def Let_def)
    then have "dequeue_loop q ?pos = None" by (rule dequeue_loop_spin)
    then show ?thesis using spin by (simp add: Let_def)
  qed
qed

lemma try_dequeue_cases:
  "try_dequeue mt q =
     (let pos = dequeue_pos q; i = slot_index q pos in
      if length (buffer q) \<le> i then Some (Undefined, q)
      else
        let d = seq_diff (sequence (buffer q ! i)) (pos + 1) in
        if d = 0 then
          (case storage (buffer q ! i) of
             None \<Rightarrow> Some (Undefined, q\<lparr>dequeue_pos := pos + 1\<rparr>)
           | Some v \<Rightarrow>
               if mt v then
                 Some (Thrown,
                       q\<lparr>dequeue_pos := pos + 1,
                         buffer := (buffer q)[i := (buffer q ! i)\<lparr>sequence := pos + capacity q\<rparr>]\<rparr>)
               else
                 Some (Returned (Some v),
                       q\<lparr>dequeue_pos := pos + 1,
                         buffer := (buffer q)[i := (buffer q ! i)\<lparr>storage := None, sequence := pos + capacity q\<rparr>]\<rparr>))
        else if d < 0 then Some (Returned None, q)
        else None)"
  by (simp add: try_dequeue_def dequeue_loop_cases Let_def slot_index_def set_slot_def
      split: option.split)

lemma try_dequeue_out_cases:
  "try_dequeue_out asg q out =
     (let pos = dequeue_pos q; i = slot_index q pos in
      if length (buffer q) \<le> i then Some (Undefined, out, q)
      else
        let d = seq_diff (sequence (buffer q ! i)) (pos + 1) in
        if d = 0 then
          (case storage (buffer q ! i) of
             None \<Rightarrow> Some (Undefined, out, q\<lparr>dequeue_pos := pos + 1\<rparr>)
           | Some v \<Rightarrow>
               (case asg out v of
                  Some out' \<Rightarrow>
                    Some (Thrown, out',
                          q\<lparr>dequeue_pos := pos + 1,
                            buffer := (buffer q)[i := (buffer q ! i)\<lparr>sequence := pos + capacity q\<rparr>]\<rparr>)
                | None \<Rightarrow>
                    Some (Returned True, v,
                          q\<lparr>dequeue_pos := pos + 1,
                            buffer := (buffer q)[i := (buffer q ! i)\<lparr>storage := None, sequence := pos + capacity q\<rparr>]\<rparr>)))
        else if d < 0 then Some (Returned False, out, q)
        else None)"
  by (simp add: try_dequeue_out_def dequeue_loop_cases Let_def slot_index_def set_slot_def
      split: option.split)

lemma mpmc_wf_new:
  assumes "MPMCQueue_new node_size k = Returned q" "k \<le> 2 ^ 63"
  shows "mpmc_wf q"
  using assms(1) next_power_of_2_is_power [OF assms(2)]
  by (auto simp: mpmc_wf_def MPMCQueue_new_def Let_def split: if_splits)

lemma slot_index_wf:
  assumes "mpmc_wf q"
  shows "slot_index q pos = unat pos mod unat (capacity q)"
    and "slot_index q pos < length (buffer q)"
proof -
  from assms obtain e where e: "e < 64" "capacity q = 2 ^ e"
    "slot_mask q = 2 ^ e - 1" "length (buffer q) = unat (capacity q)"
    by (auto simp: mpmc_wf_def)
  show "slot_index q pos = unat pos mod unat (capacity q)"
    using e by (simp add: slot_index_def unat_and_mask_exp unat_exp)
  then show "slot_index q pos < length (buffer q)"
    using e by (simp add: unat_exp)
qed

lemma node_rewritten [simp]:
  "(n :: 'a Node)\<lparr>storage := a, sequence := b\<rparr> = \<lparr>storage = a, sequence = b\<rparr>"
  by (cases n) simp





section \<open>Freshly constructed and empty structures\<close>

lemma mpmc_wfD:
  assumes "mpmc_wf q"
  obtains e where "e < 64" "capacity q = 2 ^ e" "slot_mask q = 2 ^ e - 1"
    "length (buffer q) = 2 ^ e" "unat (capacity q) = 2 ^ e"
  using assms by (auto simp: mpmc_wf_def unat_exp)

lemma rb_wfD:
  assumes "rb_wf r"
  obtains e where "e < 64" "rb_capacity r = 2 ^ e" "rb_mask r = 2 ^ e - 1"
    "length (rb_storage r) = 2 ^ e" "unat (rb_capacity r) = 2 ^ e"
  using assms by (auto simp: rb_wf_def unat_exp)

lemma slot_index_offset:
  assumes "mpmc_wf q"
  shows "slot_index q (p + of_nat i) = (unat p + i) mod unat (capacity q)"
proof -
  from assms obtain e where e: "e < 64" "slot_mask q = 2 ^ e - 1" "unat (capacity q) = 2 ^ e"
    by (rule mpmc_wfD)
  then show ?thesis
    using unat_index [of e p i] by (simp add: slot_index_def)
qed

lemma cell_index_offset:
  assumes "rb_wf r"
  shows "cell_index r (p + of_nat i) = (unat p + i) mod unat (rb_capacity r)"
proof -
  from assms obtain e where e: "e < 64" "rb_mask r = 2 ^ e - 1" "unat (rb_capacity r) = 2 ^ e"
    by (rule rb_wfD)
  then show ?thesis
    using unat_index [of e p i] by (simp add: cell_index_def)
qed

lemma mpmc_inv_new:
  assumes "MPMCQueue_new node_size k = Returned q" "k \<le> 2 ^ 63"
  shows "mpmc_inv q []"
proof -
  have w: "mpmc_wf q" using assms by (rule mpmc_wf_new)
  have b: "buffer q = map (\<lambda>i. \<lparr>storage = None, sequence = of_nat i\<rparr>) [0..<unat (capacity q)]"
    "dequeue_pos q = 0" "enqueue_pos q = 0"
    using assms(1) by (auto simp: MPMCQueue_new_def Let_def split: if_splits)
  have "buffer q ! slot_index q (dequeue_pos q + of_nat i) =
      \<lparr>storage = None, sequence = dequeue_pos q + of_nat i\<rparr>" if "i < unat (capacity q)" for i
    using that slot_index_offset [OF w, of 0 i] by (simp add: b)
  then show ?thesis
    using w by (simp add: mpmc_inv_def b(2,3))
qed

lemma rb_inv_new:
  assumes "k \<le> 2 ^ 63" "elem_size \<noteq> 0"
    and "unat elem_size * unat (next_power_of_2 k) < 2 ^ 64"
  shows "rb_inv (RingBuffer_new elem_size k) []"
  using rb_wf_new [OF assms]
  by (simp add: rb_inv_def) (simp add: RingBuffer_new_eq [OF assms(2,3)])

lemma seq_diff_behind: "seq_diff p (p + 1) < 0"
  by (simp add: seq_diff_def)

lemma try_dequeue_out_empty:
  assumes "mpmc_inv q []"
  shows "try_dequeue_out asg q out = Some (Returned False, out, q)"
proof -
  from assms have w: "mpmc_wf q" by (simp add: mpmc_inv_def)
  then obtain e where e: "unat (capacity q) = 2 ^ e" by (rule mpmc_wfD)
  then have "0 < unat (capacity q)" by simp
  with assms have "buffer q ! slot_index q (dequeue_pos q + of_nat 0) =
      \<lparr>storage = None, sequence = dequeue_pos q + of_nat 0\<rparr>"
    unfolding mpmc_inv_def by (metis (no_types, lifting) lessThan_iff list.size(3) not_less_zero)
  then have s: "sequence (buffer q ! slot_index q (dequeue_pos q)) = dequeue_pos q" by simp
  show ?thesis
    using slot_index_wf(2) [OF w, of "dequeue_pos q"]
    by (simp add: try_dequeue_out_cases Let_def s seq_diff_behind seq_diff_eq_0)
qed

lemma try_dequeue_empty:
  assumes "mpmc_inv q []"
  shows "try_dequeue mt q = Some (Returned None, q)"
proof -
  from assms have w: "mpmc_wf q" by (simp add: mpmc_inv_def)
  then obtain e where e: "unat (capacity q) = 2 ^ e" by (rule mpmc_wfD)
  then have "0 < unat (capacity q)" by simp
  with assms have "buffer q ! slot_index q (dequeue_pos q + of_nat 0) =
      \<lparr>storage = None, sequence = dequeue_pos q + of_nat 0\<rparr>"
    unfolding mpmc_inv_def by (metis (no_types, lifting) lessThan_iff list.size(3) not_less_zero)
  then have s: "sequence (buffer q ! slot_index q (dequeue_pos q)) = dequeue_pos q" by simp
  show ?thesis
    using slot_index_wf(2) [OF w, of "dequeue_pos q"]
    by (simp add: try_dequeue_cases Let_def s seq_diff_behind seq_diff_eq_0)
qed

lemma try_read_out_empty:
  assumes "rb_inv r []"
  shows "try_read_out asg r out = (Returned False, out, r\<lparr>cached_write_pos := write_pos r\<rparr>)"
proof -
  from assms have "write_pos r = read_pos r" "cached_write_pos r = read_pos r"
    by (simp_all add: rb_inv_def unat_eq_0)
  then show ?thesis by (simp add: try_read_out_def)
qed

lemma try_dequeue_out_keeps:
  "try_dequeue_out nothrow_assign q out = Some (res, out', q') \<Longrightarrow> res \<noteq> Returned True \<Longrightarrow>
   out' = out"
  by (auto simp: try_dequeue_out_cases Let_def nothrow_assign_def split: if_splits option.splits)

lemma try_read_out_keeps:
  "try_read_out nothrow_assign r out = (res, out', r') \<Longrightarrow> res \<noteq> Returned True \<Longrightarrow>
   out' = out"
  by (auto simp: try_read_out_def move_assign_and_publish_def Let_def nothrow_assign_def
      split: if_splits option.splits)

lemma try_pop_keeps:
  "try_pop s out = Some (res, out', s') \<Longrightarrow> res \<noteq> Returned True \<Longrightarrow> out' = out"
  by (cases "s_head s"; cases "deref (s_heap s) (the (s_head s))")
     (auto simp: try_pop_null try_pop_node try_pop_dangling)

text \<open>Whatever the move assignment does, it is only reached with a claimed slot or node.\<close>

lemma try_dequeue_out_assigned:
  assumes "try_dequeue_out asg q out = Some (res, out', q')" "out' \<noteq> out"
  shows "sequence (buffer q ! slot_index q (dequeue_pos q)) = dequeue_pos q + 1"
    and "storage (buffer q ! slot_index q (dequeue_pos q)) \<noteq> None"
    and "dequeue_pos q' = dequeue_pos q + 1"
  using assms
  by (auto simp: try_dequeue_out_cases Let_def seq_diff_eq_0 split: if_splits option.splits)

lemma try_read_out_assigned:
  assumes "try_read_out asg r out = (res, out', r')" "out' \<noteq> out"
  shows "read_pos r < cached_write_pos r \<or> read_pos r < write_pos r"
    and "rb_storage r ! cell_index r (read_pos r) \<noteq> None"
  using assms
  by (auto simp: try_read_out_def move_assign_and_publish_def Let_def cell_index_def
      split: if_splits option.splits)

lemma try_pop_assigned:
  assumes "try_pop s out = Some (res, out', s')" "out' \<noteq> out"
  shows "s_head s \<noteq> None"
  using assms try_pop_null [of s out] by (cases "s_head s") auto

text \<open>
  Claim C10. Called on an empty structure, \<open>try_dequeue(out)\<close>, \<open>try_read(out)\<close> and
  \<open>try_pop(out)\<close> return false and hand the caller's object back as it was; the queue
  and the stack are unchanged and the ring buffer has only refreshed its cached write
  cursor. More generally, whenever one of these calls ends without returning true, the
  caller's object is unchanged, provided the move assignment of the element type does not
  throw. With any move assignment, a call after which the caller's object differs has
  claimed a slot or node: the queue's slot at \<open>dequeue_pos\<close> carried the sequence
  \<open>dequeue_pos + 1\<close> and an element, and the cursor has advanced; the ring buffer
  passed its empty check and the cell at \<open>read_pos\<close> held an element; the stack's
  head was not null.
\<close>

theorem out_parameter_frame:
  "(mpmc_inv q [] \<longrightarrow> try_dequeue_out asg q out = Some (Returned False, out, q)) \<and>
   (rb_inv r [] \<longrightarrow>
      try_read_out asg r out = (Returned False, out, r\<lparr>cached_write_pos := write_pos r\<rparr>)) \<and>
   (s_head s = None \<longrightarrow> try_pop s out = Some (Returned False, out, s)) \<and>
   (try_dequeue_out nothrow_assign q out = Some (res, out', q') \<and> res \<noteq> Returned True \<longrightarrow>
      out' = out) \<and>
   (try_read_out nothrow_assign r out = (res, out', r') \<and> res \<noteq> Returned True \<longrightarrow>
      out' = out) \<and>
   (try_pop s out = Some (res, out', s') \<and> res \<noteq> Returned True \<longrightarrow> out' = out) \<and>
   (try_dequeue_out asg q out = Some (res, out', q') \<and> out' \<noteq> out \<longrightarrow>
      sequence (buffer q ! slot_index q (dequeue_pos q)) = dequeue_pos q + 1 \<and>
      storage (buffer q ! slot_index q (dequeue_pos q)) \<noteq> None \<and>
      dequeue_pos q' = dequeue_pos q + 1) \<and>
   (try_read_out asg r out = (res, out', r') \<and> out' \<noteq> out \<longrightarrow>
      (read_pos r < cached_write_pos r \<or> read_pos r < write_pos r) \<and>
      rb_storage r ! cell_index r (read_pos r) \<noteq> None) \<and>
   (try_pop s out = Some (res, out', s') \<and> out' \<noteq> out \<longrightarrow> s_head s \<noteq> None)"
  using try_dequeue_out_empty [of q asg out] try_read_out_empty [of r asg out]
    try_pop_null [of s out]
    try_dequeue_out_keeps [of q out res out' q'] try_read_out_keeps [of r out res out' r']
    try_pop_keeps [of s out res out' s']
    try_dequeue_out_assigned [of asg q out res out' q']
    try_read_out_assigned [of asg r out res out' r']
    try_pop_assigned [of s out res out' s']
  by blast

text \<open>
  Claim C10 on the three freshly constructed structures, with a move assignment that
  throws whenever it is called and leaves 0 in the caller's object.
\<close>

theorem out_parameter_frame_witness:
  "(MPMCQueue_new 16 2 :: nat MPMCQueue outcome) =
     Returned \<lparr>enqueue_pos = 0, dequeue_pos = 0, capacity = 2, slot_mask = 1,
            buffer = [\<lparr>storage = None, sequence = 0\<rparr>, \<lparr>storage = None, sequence = 1\<rparr>]\<rparr> \<and>
   mpmc_inv \<lparr>enqueue_pos = 0, dequeue_pos = 0, capacity = 2, slot_mask = 1,
            buffer = [\<lparr>storage = None :: nat option, sequence = 0\<rparr>, \<lparr>storage = None, sequence = 1\<rparr>]\<rparr> [] \<and>
   try_dequeue_out (\<lambda>out v. Some 0)
       \<lparr>enqueue_pos = 0, dequeue_pos = 0, capacity = 2, slot_mask = 1,
            buffer = [\<lparr>storage = None :: nat option, sequence = 0\<rparr>, \<lparr>storage = None, sequence = 1\<rparr>]\<rparr> 5 =
     Some (Returned False, 5,
           \<lparr>enqueue_pos = 0, dequeue_pos = 0, capacity = 2, slot_mask = 1,
            buffer = [\<lparr>storage = None, sequence = 0\<rparr>, \<lparr>storage = None, sequence = 1\<rparr>]\<rparr>) \<and>
   rb_inv (RingBuffer_new 8 2 :: nat RingBuffer) [] \<and>
   try_read_out (\<lambda>out v. Some 0) (RingBuffer_new 8 2 :: nat RingBuffer) 5 =
     (Returned False, 5, RingBuffer_new 8 2) \<and>
   s_head (LockFreeStack_new :: nat LockFreeStack) = None \<and>
   try_pop (LockFreeStack_new :: nat LockFreeStack) 5 = Some (Returned False, 5, LockFreeStack_new)"
proof -
  define q0 :: "nat MPMCQueue" where "q0 = \<lparr>enqueue_pos = 0, dequeue_pos = 0, capacity = 2, slot_mask = 1,
            buffer = [\<lparr>storage = None, sequence = 0\<rparr>, \<lparr>storage = None, sequence = 1\<rparr>]\<rparr>"
  define r0 :: "nat RingBuffer" where "r0 = RingBuffer_new 8 2"
  define s0 :: "nat LockFreeStack" where "s0 = LockFreeStack_new"
  have n: "(MPMCQueue_new 16 2 :: nat MPMCQueue outcome) = Returned q0"
    unfolding q0_def by code_simp
  have 1: "mpmc_inv q0 []" using n by (rule mpmc_inv_new) simp
  have p: "next_power_of_2 2 = 2" by (simp add: next_power_of_2_def Let_def)
  have 2: "rb_inv r0 []" unfolding r0_def by (rule rb_inv_new) (simp_all add: p)
  have 3: "s_head s0 = None" by (simp add: s0_def LockFreeStack_new_def)
  have 4: "r0\<lparr>cached_write_pos := write_pos r0\<rparr> = r0"
    by (simp add: r0_def RingBuffer_new_def Let_def)
  have "try_dequeue_out (\<lambda>out v. Some 0) q0 5 = Some (Returned False, 5, q0) \<and>
      try_read_out (\<lambda>out v. Some 0) r0 5 = (Returned False, 5, r0\<lparr>cached_write_pos := write_pos r0\<rparr>) \<and>
      try_pop s0 5 = Some (Returned False, 5, s0)"
    using 1 2 3
      out_parameter_frame [where q = q0 and out = 5 and r = r0 and s = s0
        and asg = "\<lambda>out v. Some 0" and res = "Returned False" and out' = 5
        and q' = q0 and r' = r0 and s' = s0]
    by blast
  with n 1 2 3 show ?thesis
    unfolding 4 unfolding q0_def r0_def s0_def by (intro conjI) simp_all
qed

section \<open>SPSC ring buffer: the invariant\<close>

lemma unat_size_t_less: "unat (w :: size_t) < 2 ^ 64"
  using unsigned_less [of w, where 'a = nat] by simp

lemma unat_add_small:
  fixes a b :: size_t
  assumes "unat a + unat b < 2 ^ 64"
  shows "unat (a + b) = unat a + unat b"
  using assms unat_add_lem [of a b] by simp

lemma rb_wf_update [simp]:
  "rb_wf (r\<lparr>cached_read_pos := a\<rparr>) = rb_wf r"
  "rb_wf (r\<lparr>cached_write_pos := a\<rparr>) = rb_wf r"
  "rb_wf (r\<lparr>write_pos := a\<rparr>) = rb_wf r"
  "rb_wf (r\<lparr>read_pos := a\<rparr>) = rb_wf r"
  "rb_wf (r\<lparr>rb_storage := (rb_storage r)[i := x]\<rparr>) = rb_wf r"
  by (simp_all add: rb_wf_def)

lemma cell_index_update [simp]:
  "cell_index (r\<lparr>cached_read_pos := a\<rparr>) = cell_index r"
  "cell_index (r\<lparr>cached_write_pos := a\<rparr>) = cell_index r"
  "cell_index (r\<lparr>write_pos := a\<rparr>) = cell_index r"
  "cell_index (r\<lparr>read_pos := a\<rparr>) = cell_index r"
  "cell_index (r\<lparr>rb_storage := s\<rparr>) = cell_index r"
  by (simp_all add: cell_index_def fun_eq_iff)

lemma rb_inv_len:
  assumes "rb_inv r xs"
  shows "length xs \<le> unat (rb_capacity r)" "length xs < 2 ^ 64"
    "unat (of_nat (length xs) :: size_t) = length xs"
proof -
  show l: "length xs \<le> unat (rb_capacity r)" using assms by (simp add: rb_inv_def)
  with unat_size_t_less [of "rb_capacity r"] show "length xs < 2 ^ 64" by simp
  then show "unat (of_nat (length xs) :: size_t) = length xs" by (rule unat_of_nat_small)
qed

lemma rb_inv_distances:
  assumes "rb_inv r xs"
  shows "unat (write_pos r - read_pos r) = length xs"
    and "unat (write_pos r - cached_read_pos r) = unat (read_pos r - cached_read_pos r) + length xs"
proof -
  have w: "write_pos r = read_pos r + of_nat (length xs)" using assms by (simp add: rb_inv_def)
  show "unat (write_pos r - read_pos r) = length xs"
    using rb_inv_len(3) [OF assms] by (simp add: w)
  have "unat (read_pos r - cached_read_pos r) + length xs \<le> unat (rb_capacity r)"
    using assms by (simp add: rb_inv_def)
  with unat_size_t_less [of "rb_capacity r"]
  have b: "unat (read_pos r - cached_read_pos r) + unat (of_nat (length xs) :: size_t) < 2 ^ 64"
    using rb_inv_len(3) [OF assms] by simp
  have eq: "write_pos r - cached_read_pos r = (read_pos r - cached_read_pos r) + of_nat (length xs)"
    by (simp add: w)
  show "unat (write_pos r - cached_read_pos r) = unat (read_pos r - cached_read_pos r) + length xs"
    unfolding eq using unat_add_small [OF b] rb_inv_len(3) [OF assms] by simp
qed

lemma rb_inv_refresh_read:
  "rb_inv r xs \<Longrightarrow> rb_inv (r\<lparr>cached_read_pos := read_pos r\<rparr>) xs"
  by (simp add: rb_inv_def)

lemma rb_inv_refresh_write:
  assumes "rb_inv r xs"
  shows "rb_inv (r\<lparr>cached_write_pos := write_pos r\<rparr>) xs"
  using assms rb_inv_distances(1) [OF assms]
  by (simp add: rb_inv_def)

lemma construct_and_publish_inv:
  assumes "rb_inv r xs" "unat (read_pos r - cached_read_pos r) + length xs < unat (rb_capacity r)"
  shows "\<exists>r'. construct_and_publish r (write_pos r) (Some v) = (Returned True, r') \<and> rb_inv r' (xs @ [v])"
proof -
  from assms(1) have wf: "rb_wf r" by (simp add: rb_inv_def)
  then obtain e where e: "e < 64" "rb_capacity r = 2 ^ e" "rb_mask r = 2 ^ e - 1"
    "length (rb_storage r) = 2 ^ e" "unat (rb_capacity r) = 2 ^ e"
    by (rule rb_wfD)
  define w where "w = cell_index r (write_pos r)"
  define r' where "r' = r\<lparr>rb_storage := (rb_storage r)[w := Some v], write_pos := write_pos r + 1\<rparr>"
  have wp: "write_pos r = read_pos r + of_nat (length xs)" using assms by (simp add: rb_inv_def)
  have lw: "w < length (rb_storage r)" unfolding w_def using cell_index_wf(2) [OF wf] .
  then have c: "construct_and_publish r (write_pos r) (Some v) = (Returned True, r')"
    by (simp add: construct_and_publish_def r'_def w_def)
  have cells: "rb_storage r' ! cell_index r' (read_pos r' + of_nat i) = Some ((xs @ [v]) ! i)"
    if "i < length (xs @ [v])" for i
  proof (cases "i = length xs")
    case True
    then show ?thesis using lw by (simp add: r'_def w_def wp)
  next
    case False
    with that have i: "i < length xs" by simp
    have "cell_index r (read_pos r + of_nat i) \<noteq> w"
    proof
      assume "cell_index r (read_pos r + of_nat i) = w"
      then have "i = length xs"
        using e assms(2) i
        by (intro index_inj [of e i "length xs" "read_pos r"]) (simp_all add: cell_index_def w_def wp)
      with False show False by simp
    qed
    moreover have "rb_storage r ! cell_index r (read_pos r + of_nat i) = Some (xs ! i)"
      using assms(1) i by (simp add: rb_inv_def)
    ultimately show ?thesis
      using i by (simp add: r'_def nth_append)
  qed
  have "rb_inv r' (xs @ [v])"
    unfolding rb_inv_def
  proof (intro conjI ballI)
    show "rb_wf r'" using wf by (simp add: r'_def)
    show "write_pos r' = read_pos r' + of_nat (length (xs @ [v]))" by (simp add: r'_def wp)
    show "unat (read_pos r' - cached_read_pos r') + length (xs @ [v]) \<le> unat (rb_capacity r')"
      using assms(2) by (simp add: r'_def)
    show "unat (cached_write_pos r' - read_pos r') \<le> length (xs @ [v])"
      using assms(1) by (simp add: rb_inv_def r'_def)
    show "rb_storage r' ! cell_index r' (read_pos r' + of_nat i) = Some ((xs @ [v]) ! i)"
      if "i \<in> {..<length (xs @ [v])}" for i
      using that cells by simp
  qed
  with c show ?thesis by blast
qed


lemma try_write_inv:
  assumes "rb_inv r xs"
  shows "\<exists>r'. (try_write r (Some v) = (Returned True, r') \<and> rb_inv r' (xs @ [v])) \<or>
              (try_write r (Some v) = (Returned False, r') \<and> rb_inv r' xs \<and>
               length xs = unat (rb_capacity r))"
proof -
  note d = rb_inv_distances [OF assms]
  let ?r1 = "r\<lparr>cached_read_pos := read_pos r\<rparr>"
  have i1: "rb_inv ?r1 xs" using assms by (rule rb_inv_refresh_read)
  show ?thesis
  proof (cases "rb_capacity r \<le> write_pos r - cached_read_pos r")
    case False
    then have "unat (read_pos r - cached_read_pos r) + length xs < unat (rb_capacity r)"
      using d by (simp add: word_le_nat_alt)
    from construct_and_publish_inv [OF assms this, of v] False
    show ?thesis by (auto simp: try_write_def)
  next
    case True
    show ?thesis
    proof (cases "rb_capacity r \<le> write_pos r - read_pos r")
      case False
      then have "unat (read_pos ?r1 - cached_read_pos ?r1) + length xs < unat (rb_capacity ?r1)"
        using d by (simp add: word_le_nat_alt)
      from construct_and_publish_inv [OF i1 this, of v] True False
      show ?thesis by (auto simp: try_write_def)
    next
      case c: True
      then have "length xs = unat (rb_capacity r)"
        using d rb_inv_len(1) [OF assms] by (simp add: word_le_nat_alt)
      with True c i1 show ?thesis by (auto simp: try_write_def)
    qed
  qed
qed

lemma rb_inv_cell:
  "rb_inv r xs \<Longrightarrow> i < length xs \<Longrightarrow>
   rb_storage r ! cell_index r (read_pos r + of_nat i) = Some (xs ! i)"
  by (simp add: rb_inv_def)

lemma move_out_and_publish_inv:
  assumes "rb_inv r xs" "cached_write_pos r \<noteq> read_pos r"
  shows "\<exists>r'. (move_out_and_publish mt r (read_pos r) = (Returned None, r') \<and> rb_inv r' xs) \<or>
              (\<exists>x xs'. xs = x # xs' \<and>
                 move_out_and_publish mt r (read_pos r) = (Returned (Some x), r') \<and>
                 rb_inv r' xs')"
proof -
  from assms(1) have wf: "rb_wf r" by (simp add: rb_inv_def)
  then obtain e where e: "e < 64" "rb_capacity r = 2 ^ e" "rb_mask r = 2 ^ e - 1"
    "length (rb_storage r) = 2 ^ e" "unat (rb_capacity r) = 2 ^ e"
    by (rule rb_wfD)
  have nz: "cached_write_pos r - read_pos r \<noteq> 0" using assms(2) by simp
  then have "0 < unat (cached_write_pos r - read_pos r)" by (simp add: unat_gt_0)
  with assms(1) have "0 < length xs" by (auto simp: rb_inv_def)
  then obtain x xs' where xs: "xs = x # xs'" by (cases xs) auto
  define c where "c = cell_index r (read_pos r)"
  define r' where "r' = r\<lparr>rb_storage := (rb_storage r)[c := None], read_pos := read_pos r + 1\<rparr>"
  have lc: "c < length (rb_storage r)" unfolding c_def using cell_index_wf(2) [OF wf] .
  have c0: "rb_storage r ! c = Some x"
    using rb_inv_cell [OF assms(1), of 0] by (simp add: c_def xs)
  have t: "move_out_and_publish mt r (read_pos r) = (Returned None, r)" if "mt x"
    using lc c0 that by (simp add: move_out_and_publish_def c_def [symmetric])
  have m: "move_out_and_publish mt r (read_pos r) = (Returned (Some x), r')" if "\<not> mt x"
    using lc c0 that by (simp add: move_out_and_publish_def r'_def c_def [symmetric])
  have len: "length xs \<le> 2 ^ e" using rb_inv_len(1) [OF assms(1)] e by simp
  have cells: "rb_storage r' ! cell_index r' (read_pos r' + of_nat i) = Some (xs' ! i)"
    if "i < length xs'" for i
  proof -
    have p: "read_pos r' + of_nat i = read_pos r + of_nat (Suc i)" by (simp add: r'_def)
    have "cell_index r (read_pos r + of_nat (Suc i)) \<noteq> c"
    proof
      assume "cell_index r (read_pos r + of_nat (Suc i)) = c"
      then have "unat ((read_pos r + of_nat (Suc i)) AND (2 ^ e - 1)) =
          unat ((read_pos r + of_nat 0) AND (2 ^ e - 1))"
        using e by (simp add: cell_index_def c_def)
      then have "Suc i = 0"
        using e that len xs by (intro index_inj [of e "Suc i" 0 "read_pos r"]) simp_all
      then show False by simp
    qed
    moreover have "rb_storage r ! cell_index r (read_pos r + of_nat (Suc i)) = Some (xs ! Suc i)"
      using that xs by (intro rb_inv_cell [OF assms(1)]) simp
    ultimately show ?thesis
      unfolding p by (simp add: r'_def xs)
  qed
  have "rb_inv r' xs'"
    unfolding rb_inv_def
  proof (intro conjI ballI)
    show "rb_wf r'" using wf by (simp add: r'_def)
    show "write_pos r' = read_pos r' + of_nat (length xs')"
      using assms(1) by (simp add: rb_inv_def r'_def xs)
    have "unat (read_pos r + 1 - cached_read_pos r) \<le> unat (read_pos r - cached_read_pos r) + 1"
    proof -
      have "read_pos r + 1 - cached_read_pos r = (read_pos r - cached_read_pos r) + 1" by simp
      then show ?thesis
        by (metis unat_word_ariths(1) mod_less_eq_dividend unsigned_1)
    qed
    then show "unat (read_pos r' - cached_read_pos r') + length xs' \<le> unat (rb_capacity r')"
      using assms(1) by (auto simp: rb_inv_def r'_def xs)
    have eq: "cached_write_pos r - (read_pos r + 1) = (cached_write_pos r - read_pos r) - 1" by simp
    have "unat (cached_write_pos r - (read_pos r + 1)) = unat (cached_write_pos r - read_pos r) - 1"
      unfolding eq by (rule unat_minus_one [OF nz])
    then show "unat (cached_write_pos r' - read_pos r') \<le> length xs'"
      using assms(1) by (auto simp: rb_inv_def r'_def xs)
    show "rb_storage r' ! cell_index r' (read_pos r' + of_nat i) = Some (xs' ! i)"
      if "i \<in> {..<length xs'}" for i
      using that cells by simp
  qed
  with xs m t assms(1) show ?thesis by (cases "mt x") blast+
qed

lemma try_read_inv:
  assumes "rb_inv r xs"
  shows "\<exists>r'. (try_read mt r = (Returned None, r') \<and> rb_inv r' xs) \<or>
              (\<exists>x xs'. xs = x # xs' \<and> try_read mt r = (Returned (Some x), r') \<and> rb_inv r' xs')"
proof (cases "cached_write_pos r \<le> read_pos r")
  case False
  then have "cached_write_pos r \<noteq> read_pos r" by auto
  from move_out_and_publish_inv [OF assms this, of mt] False
  show ?thesis by (auto simp: try_read_def)
next
  case True
  let ?r1 = "r\<lparr>cached_write_pos := write_pos r\<rparr>"
  have i1: "rb_inv ?r1 xs" using assms by (rule rb_inv_refresh_write)
  show ?thesis
  proof (cases "write_pos r \<le> read_pos r")
    case w: True
    with True i1 show ?thesis by (auto simp: try_read_def)
  next
    case False
    then have "cached_write_pos ?r1 \<noteq> read_pos ?r1" by auto
    from move_out_and_publish_inv [OF i1 this, of mt] True False
    show ?thesis by (auto simp: try_read_def)
  qed
qed

text \<open>
  A single thread (or one producer and one consumer taking turns) on the ring buffer:
  every call returns, and what is read, followed by what is still stored, is what was
  stored before followed by what has been written. A read whose move constructor throws
  reports an empty optional and leaves the element where it is.
\<close>

lemma rb_run_fifo:
  assumes "rb_inv r xs"
  shows "\<exists>ins outs r' xs'. rb_run mt r ops = Some (ins, outs, r') \<and> rb_inv r' xs' \<and>
           xs @ ins = outs @ xs'"
  using assms
proof (induction ops arbitrary: r xs)
  case Nil
  then show ?case by auto
next
  case (Cons a ops)
  show ?case
  proof (cases a)
    case (Enqueue v)
    from try_write_inv [OF Cons.prems, of v]
    consider r1 where "try_write r (Some v) = (Returned True, r1)" "rb_inv r1 (xs @ [v])"
      | r1 where "try_write r (Some v) = (Returned False, r1)" "rb_inv r1 xs"
      by blast
    then show ?thesis
    proof cases
      case 1
      from Cons.IH [OF 1(2)] obtain ins outs r' xs' where
        "rb_run mt r1 ops = Some (ins, outs, r')" "rb_inv r' xs'" "(xs @ [v]) @ ins = outs @ xs'"
        by blast
      then show ?thesis using 1(1) Enqueue by auto
    next
      case 2
      from Cons.IH [OF 2(2)] obtain ins outs r' xs' where
        "rb_run mt r1 ops = Some (ins, outs, r')" "rb_inv r' xs'" "xs @ ins = outs @ xs'"
        by blast
      then show ?thesis using 2(1) Enqueue by auto
    qed
  next
    case Dequeue
    from try_read_inv [OF Cons.prems, of mt]
    consider r1 where "try_read mt r = (Returned None, r1)" "rb_inv r1 xs"
      | r1 x xs1 where "xs = x # xs1" "try_read mt r = (Returned (Some x), r1)" "rb_inv r1 xs1"
      by blast
    then show ?thesis
    proof cases
      case 1
      from Cons.IH [OF 1(2)] obtain ins outs r' xs' where
        "rb_run mt r1 ops = Some (ins, outs, r')" "rb_inv r' xs'" "xs @ ins = outs @ xs'"
        by blast
      then show ?thesis using 1(1) Dequeue by auto
    next
      case 2
      from Cons.IH [OF 2(3)] obtain ins outs r' xs' where
        "rb_run mt r1 ops = Some (ins, outs, r')" "rb_inv r' xs'" "xs1 @ ins = outs @ xs'"
        by blast
      then show ?thesis using 2(1,2) Dequeue by auto
    qed
  qed
qed

section \<open>Bounded MPMC queue: the invariant\<close>

lemma sint_neg_iff: "sint (x :: size_t) < 0 \<longleftrightarrow> 2 ^ 63 \<le> unat x"
proof -
  have "j = 63" if "63 \<le> j" "bit x j" for j
    using bit_imp_le_length [OF that(2)] that(1) by simp
  then have "(\<exists>j. 63 \<le> j \<and> bit x j) \<longleftrightarrow> bit x 63"
    by auto
  then show ?thesis
    using bit_last_iff [of x] high_bit_iff [of 63 x] by simp
qed

lemma seq_diff_full:
  assumes "1 \<le> e" "e < 64"
  shows "seq_diff (p + 1) (p + 2 ^ e) < 0"
proof -
  have le: "(2::nat) ^ e \<le> 2 ^ 63"
    using assms by (intro power_increasing) simp_all
  have gt: "(1::nat) < 2 ^ e"
    using assms by (metis One_nat_def Suc_le_lessD one_less_numeral_iff one_less_power semiring_norm(76))
  have "unat (1 - 2 ^ e :: size_t) = 1 + 2 ^ 64 - 2 ^ e"
    using gt assms by (simp add: unat_sub_if_size unat_exp word_size)
  then have "2 ^ 63 \<le> unat (1 - 2 ^ e :: size_t)"
    using le by simp
  then show ?thesis
    by (simp add: seq_diff_def sint_neg_iff)
qed

lemma mpmc_wf_update [simp]:
  "mpmc_wf (q\<lparr>enqueue_pos := a\<rparr>) = mpmc_wf q"
  "mpmc_wf (q\<lparr>dequeue_pos := a\<rparr>) = mpmc_wf q"
  "length b = length (buffer q) \<Longrightarrow> mpmc_wf (q\<lparr>buffer := b\<rparr>) = mpmc_wf q"
  by (simp_all add: mpmc_wf_def)

lemma slot_index_update [simp]:
  "slot_index (q\<lparr>enqueue_pos := a\<rparr>) = slot_index q"
  "slot_index (q\<lparr>dequeue_pos := a\<rparr>) = slot_index q"
  "slot_index (q\<lparr>buffer := b\<rparr>) = slot_index q"
  by (simp_all add: slot_index_def fun_eq_iff)

lemma mpmc_inv_cell:
  "mpmc_inv q xs \<Longrightarrow> i < unat (capacity q) \<Longrightarrow>
   buffer q ! slot_index q (dequeue_pos q + of_nat i) =
     (if i < length xs
      then \<lparr>storage = Some (xs ! i), sequence = dequeue_pos q + of_nat i + 1\<rparr>
      else \<lparr>storage = None, sequence = dequeue_pos q + of_nat i\<rparr>)"
  by (simp add: mpmc_inv_def)

lemma mpmc_inv_facts:
  assumes "mpmc_inv q xs"
  shows "mpmc_wf q" "length xs \<le> unat (capacity q)"
    "enqueue_pos q = dequeue_pos q + of_nat (length xs)"
  using assms by (simp_all add: mpmc_inv_def)

lemma slot_index_inj:
  assumes "mpmc_wf q" "i < unat (capacity q)" "j < unat (capacity q)"
    "slot_index q (p + of_nat i) = slot_index q (p + of_nat j)"
  shows "i = j"
proof -
  from assms(1) obtain e where e: "e < 64" "slot_mask q = 2 ^ e - 1" "unat (capacity q) = 2 ^ e"
    by (rule mpmc_wfD)
  then show ?thesis
    using assms(2-4) by (intro index_inj [of e i j p]) (simp_all add: slot_index_def)
qed

lemma slot_index_lap:
  assumes "mpmc_wf q"
  shows "slot_index q (p + capacity q) = slot_index q p"
proof -
  from assms obtain e where e: "e < 64" "slot_mask q = 2 ^ e - 1" "capacity q = 2 ^ e"
    by (rule mpmc_wfD)
  then show ?thesis
    using index_wrap [of e p] by (simp add: slot_index_def)
qed

text \<open>Enqueueing into a queue that is not full.\<close>

lemma try_emplace_inv:
  assumes "mpmc_inv q xs" "length xs < unat (capacity q)"
  shows "\<exists>q'. try_emplace q (Some v) = Some (Returned True, q') \<and> mpmc_inv q' (xs @ [v]) \<and>
           capacity q' = capacity q"
proof -
  note f = mpmc_inv_facts [OF assms(1)]
  define pos where "pos = enqueue_pos q"
  define k where "k = slot_index q pos"
  define q' where "q' = q\<lparr>enqueue_pos := pos + 1,
      buffer := (buffer q)[k := \<lparr>storage = Some v, sequence = pos + 1\<rparr>]\<rparr>"
  have pos: "pos = dequeue_pos q + of_nat (length xs)" by (simp add: pos_def f)
  have lk: "k < length (buffer q)" unfolding k_def by (rule slot_index_wf(2) [OF f(1)])
  have cell: "buffer q ! k = \<lparr>storage = None, sequence = pos\<rparr>"
    using mpmc_inv_cell [OF assms, of ] by (simp add: k_def pos)
  have t: "try_emplace q (Some v) = Some (Returned True, q')"
    using lk cell
    by (simp add: try_emplace_cases Let_def pos_def [symmetric] k_def [symmetric] q'_def seq_diff_eq_0)
  have cells: "buffer q' ! slot_index q' (dequeue_pos q' + of_nat i) =
      (if i < length (xs @ [v])
       then \<lparr>storage = Some ((xs @ [v]) ! i), sequence = dequeue_pos q' + of_nat i + 1\<rparr>
       else \<lparr>storage = None, sequence = dequeue_pos q' + of_nat i\<rparr>)"
    if i: "i < unat (capacity q')" for i
  proof (cases "i = length xs")
    case True
    then show ?thesis using lk by (simp add: q'_def k_def pos)
  next
    case False
    have "slot_index q (dequeue_pos q + of_nat i) \<noteq> k"
    proof
      assume "slot_index q (dequeue_pos q + of_nat i) = k"
      then have "i = length xs"
        using i assms(2) by (intro slot_index_inj [OF f(1), of i "length xs" "dequeue_pos q"])
          (simp_all add: k_def pos q'_def)
      with False show False by simp
    qed
    then show ?thesis
      using False i mpmc_inv_cell [OF assms(1), of i] by (auto simp: q'_def nth_append)
  qed
  have "mpmc_inv q' (xs @ [v])"
    unfolding mpmc_inv_def
  proof (intro conjI ballI)
    show "mpmc_wf q'" using f(1) by (simp add: q'_def)
    show "length (xs @ [v]) \<le> unat (capacity q')" using assms(2) by (simp add: q'_def)
    show "enqueue_pos q' = dequeue_pos q' + of_nat (length (xs @ [v]))" by (simp add: q'_def pos)
    show "buffer q' ! slot_index q' (dequeue_pos q' + of_nat i) =
      (if i < length (xs @ [v])
       then \<lparr>storage = Some ((xs @ [v]) ! i), sequence = dequeue_pos q' + of_nat i + 1\<rparr>
       else \<lparr>storage = None, sequence = dequeue_pos q' + of_nat i\<rparr>)"
      if "i \<in> {..<unat (capacity q')}" for i
      using that cells by simp
  qed
  moreover have "capacity q' = capacity q" by (simp add: q'_def)
  ultimately show ?thesis using t by blast
qed

text \<open>Enqueueing into a full queue of capacity at least 2.\<close>

lemma try_emplace_full:
  assumes "mpmc_inv q xs" "length xs = unat (capacity q)" "2 \<le> unat (capacity q)"
  shows "try_emplace q item = Some (Returned False, q)"
proof -
  note f = mpmc_inv_facts [OF assms(1)]
  from f(1) obtain e where e: "e < 64" "capacity q = 2 ^ e" "unat (capacity q) = 2 ^ e"
    by (rule mpmc_wfD)
  have e1: "1 \<le> e" using assms(3) e by (cases e) simp_all
  have "of_nat (length xs) = capacity q" by (simp add: assms(2))
  then have pos: "enqueue_pos q = dequeue_pos q + capacity q" by (simp add: f)
  have k: "slot_index q (enqueue_pos q) = slot_index q (dequeue_pos q)"
    unfolding pos by (rule slot_index_lap [OF f(1)])
  have "buffer q ! slot_index q (dequeue_pos q + of_nat 0) =
      \<lparr>storage = Some (xs ! 0), sequence = dequeue_pos q + of_nat 0 + 1\<rparr>"
    using assms(2,3) by (subst mpmc_inv_cell [OF assms(1)]) simp_all
  then have s: "sequence (buffer q ! slot_index q (enqueue_pos q)) = dequeue_pos q + 1"
    by (simp add: k)
  have d: "seq_diff (dequeue_pos q + 1) (enqueue_pos q) < 0"
    unfolding pos e(2) by (rule seq_diff_full [OF e1 e(1)])
  show ?thesis
    using slot_index_wf(2) [OF f(1), of "enqueue_pos q"] d
    by (simp add: try_emplace_cases Let_def s)
qed

text \<open>Dequeueing from a queue that is not empty.\<close>

lemma try_dequeue_inv:
  assumes "mpmc_inv q (x # xs)" "\<not> mt x"
  shows "\<exists>q'. try_dequeue mt q = Some (Returned (Some x), q') \<and> mpmc_inv q' xs \<and>
           capacity q' = capacity q"
proof -
  note assms = assms(1)
  note nt = \<open>\<not> mt x\<close>
  note f = mpmc_inv_facts [OF assms]
  define pos where "pos = dequeue_pos q"
  define k where "k = slot_index q pos"
  define q' where "q' = q\<lparr>dequeue_pos := pos + 1,
      buffer := (buffer q)[k := \<lparr>storage = None, sequence = pos + capacity q\<rparr>]\<rparr>"
  have lk: "k < length (buffer q)" unfolding k_def by (rule slot_index_wf(2) [OF f(1)])
  have c0: "0 < unat (capacity q)" using f(2) by simp
  have cell: "buffer q ! k = \<lparr>storage = Some x, sequence = pos + 1\<rparr>"
    using mpmc_inv_cell [OF assms c0] by (simp add: k_def pos_def)
  have t: "try_dequeue mt q = Some (Returned (Some x), q')"
    using lk cell nt
    by (simp add: try_dequeue_cases Let_def pos_def [symmetric] k_def [symmetric] q'_def seq_diff_eq_0)
  have cells: "buffer q' ! slot_index q' (dequeue_pos q' + of_nat i) =
      (if i < length xs
       then \<lparr>storage = Some (xs ! i), sequence = dequeue_pos q' + of_nat i + 1\<rparr>
       else \<lparr>storage = None, sequence = dequeue_pos q' + of_nat i\<rparr>)"
    if i: "i < unat (capacity q')" for i
  proof (cases "Suc i = unat (capacity q)")
    case True
    then have "(of_nat (Suc i) :: size_t) = capacity q" by simp
    then have p: "pos + 1 + of_nat i = pos + capacity q" by simp
    have "\<not> i < length xs" using True f(2) by simp
    then show ?thesis
      using lk by (simp add: q'_def p slot_index_lap [OF f(1)] k_def)
  next
    case False
    with i have si: "Suc i < unat (capacity q)" by (simp add: q'_def)
    have p: "pos + 1 + of_nat i = pos + of_nat (Suc i)" by simp
    have "slot_index q (pos + of_nat (Suc i)) \<noteq> k"
    proof
      assume "slot_index q (pos + of_nat (Suc i)) = k"
      then have "Suc i = 0"
        using si c0 by (intro slot_index_inj [OF f(1), of "Suc i" 0 pos]) (simp_all add: k_def)
      then show False by simp
    qed
    then show ?thesis
      using si mpmc_inv_cell [OF assms si]
      by (simp add: q'_def p pos_def [symmetric] del: of_nat_Suc)
  qed
  have "mpmc_inv q' xs"
    unfolding mpmc_inv_def
  proof (intro conjI ballI)
    show "mpmc_wf q'" using f(1) by (simp add: q'_def)
    show "length xs \<le> unat (capacity q')" using f(2) by (simp add: q'_def)
    show "enqueue_pos q' = dequeue_pos q' + of_nat (length xs)" using f(3) by (simp add: q'_def pos_def)
    show "buffer q' ! slot_index q' (dequeue_pos q' + of_nat i) =
      (if i < length xs
       then \<lparr>storage = Some (xs ! i), sequence = dequeue_pos q' + of_nat i + 1\<rparr>
       else \<lparr>storage = None, sequence = dequeue_pos q' + of_nat i\<rparr>)"
      if "i \<in> {..<unat (capacity q')}" for i
      using that cells by simp
  qed
  moreover have "capacity q' = capacity q" by (simp add: q'_def)
  ultimately show ?thesis using t by blast
qed

text \<open>
  Dequeueing an element whose move constructor throws: the exception escapes, the
  cursor has advanced, and the slot keeps its element under the sequence
  \<open>pos + capacity\<close>.
\<close>

lemma try_dequeue_throws:
  assumes "mpmc_inv q (x # xs)" "mt x"
  shows "try_dequeue mt q =
     Some (Thrown,
           q\<lparr>dequeue_pos := dequeue_pos q + 1,
             buffer := (buffer q)[slot_index q (dequeue_pos q) :=
                         \<lparr>storage = Some x, sequence = dequeue_pos q + capacity q\<rparr>]\<rparr>)"
proof -
  note f = mpmc_inv_facts [OF assms(1)]
  have lk: "slot_index q (dequeue_pos q) < length (buffer q)"
    by (rule slot_index_wf(2) [OF f(1)])
  have c0: "0 < unat (capacity q)" using f(2) by simp
  have cell: "buffer q ! slot_index q (dequeue_pos q) =
      \<lparr>storage = Some x, sequence = dequeue_pos q + 1\<rparr>"
    using mpmc_inv_cell [OF assms(1) c0] by simp
  show ?thesis
    using lk cell assms(2) by (simp add: try_dequeue_cases Let_def seq_diff_eq_0)
qed

lemma mpmc_inv_size:
  assumes "mpmc_inv q xs"
  shows "unat (size_q q) = length xs" "size_q q \<le> capacity q"
    "full_q q \<longleftrightarrow> length xs = unat (capacity q)"
proof -
  note f = mpmc_inv_facts [OF assms]
  have "length xs < 2 ^ 64" using f(2) unat_size_t_less [of "capacity q"] by simp
  then have u: "unat (of_nat (length xs) :: size_t) = length xs" by (rule unat_of_nat_small)
  show s: "unat (size_q q) = length xs" by (simp add: size_q_def f(3) u)
  show "size_q q \<le> capacity q" using s f(2) by (simp add: word_le_nat_alt)
  show "full_q q \<longleftrightarrow> length xs = unat (capacity q)"
    using s f(2) by (auto simp: full_q_def word_le_nat_alt)
qed

text \<open>Each call moves its own cursor by at most one step and leaves the other alone.\<close>

lemma cursor_steps:
  "try_emplace q item = Some (res, q') \<Longrightarrow>
     (enqueue_pos q' = enqueue_pos q \<or> enqueue_pos q' = enqueue_pos q + 1) \<and>
     dequeue_pos q' = dequeue_pos q \<and> capacity q' = capacity q"
  "try_dequeue mt q = Some (res', q') \<Longrightarrow>
     (dequeue_pos q' = dequeue_pos q \<or> dequeue_pos q' = dequeue_pos q + 1) \<and>
     enqueue_pos q' = enqueue_pos q \<and> capacity q' = capacity q"
  by (auto simp: try_emplace_cases try_dequeue_cases Let_def split: if_splits option.splits)

text \<open>
  A single thread (or one producer and one consumer taking turns) on a queue of capacity
  at least 2, with elements whose move constructor does not throw: every call returns,
  an enqueue is refused exactly when \<open>capacity\<close> elements are stored, and what is
  dequeued, followed by what is still stored, is what was stored before followed by what
  has been enqueued.
\<close>

lemma run_fifo:
  assumes "mpmc_inv q xs" "2 \<le> unat (capacity q)"
  shows "\<exists>ins outs q' xs'. run nothrow_move q ops = Some (ins, outs, q') \<and> mpmc_inv q' xs' \<and>
           capacity q' = capacity q \<and> xs @ ins = outs @ xs'"
  using assms
proof (induction ops arbitrary: q xs)
  case Nil
  then show ?case by auto
next
  case (Cons a ops)
  note f = mpmc_inv_facts [OF Cons.prems(1)]
  show ?case
  proof (cases a)
    case (Enqueue v)
    show ?thesis
    proof (cases "length xs < unat (capacity q)")
      case True
      from try_emplace_inv [OF Cons.prems(1) True, of v] obtain q1 where
        1: "try_emplace q (Some v) = Some (Returned True, q1)" "mpmc_inv q1 (xs @ [v])"
          "capacity q1 = capacity q"
        by blast
      with Cons.prems(2) have "2 \<le> unat (capacity q1)" by simp
      from Cons.IH [OF 1(2) this] obtain ins outs q' xs' where
        "run nothrow_move q1 ops = Some (ins, outs, q')" "mpmc_inv q' xs'" "capacity q' = capacity q1"
        "(xs @ [v]) @ ins = outs @ xs'"
        by blast
      then show ?thesis using 1 Enqueue by (auto simp: try_enqueue_def)
    next
      case False
      with f(2) have "length xs = unat (capacity q)" by simp
      from try_emplace_full [OF Cons.prems(1) this Cons.prems(2), of "Some v"]
      have 1: "try_emplace q (Some v) = Some (Returned False, q)" .
      from Cons.IH [OF Cons.prems] obtain ins outs q' xs' where
        "run nothrow_move q ops = Some (ins, outs, q')" "mpmc_inv q' xs'" "capacity q' = capacity q"
        "xs @ ins = outs @ xs'"
        by blast
      then show ?thesis using 1 Enqueue by (auto simp: try_enqueue_def)
    qed
  next
    case Dequeue
    show ?thesis
    proof (cases xs)
      case Nil
      with Cons.prems(1) have 1: "try_dequeue nothrow_move q = Some (Returned None, q)"
        by (simp add: try_dequeue_empty)
      from Cons.IH [OF Cons.prems] obtain ins outs q' xs' where
        "run nothrow_move q ops = Some (ins, outs, q')" "mpmc_inv q' xs'" "capacity q' = capacity q"
        "xs @ ins = outs @ xs'"
        by blast
      then show ?thesis using 1 Dequeue by auto
    next
      case (Cons x xs1)
      with Cons.prems(1) have "mpmc_inv q (x # xs1)" by simp
      from try_dequeue_inv [OF this, of nothrow_move] obtain q1 where
        1: "try_dequeue nothrow_move q = Some (Returned (Some x), q1)" "mpmc_inv q1 xs1"
          "capacity q1 = capacity q"
        by (auto simp: nothrow_move_def)
      with Cons.prems(2) have "2 \<le> unat (capacity q1)" by simp
      from Cons.IH [OF 1(2) this] obtain ins outs q' xs' where
        "run nothrow_move q1 ops = Some (ins, outs, q')" "mpmc_inv q' xs'" "capacity q' = capacity q1"
        "xs1 @ ins = outs @ xs'"
        by blast
      then show ?thesis using 1 Cons Dequeue by auto
    qed
  qed
qed

text \<open>
  From the constructor on, for every requested capacity from 2 to \<open>2 ^ 63\<close>: the
  dequeued values are an initial segment of the enqueued values, at most \<open>capacity\<close>
  elements are stored, and \<open>size()\<close> is their number.
\<close>

lemma run_fifo_new:
  assumes "2 \<le> k" "k \<le> 2 ^ 63" "MPMCQueue_new node_size k = Returned q"
  shows "\<exists>ins outs q' xs'. run nothrow_move q ops = Some (ins, outs, q') \<and>
           ins = outs @ xs' \<and> mpmc_inv q' xs' \<and> unat (size_q q') = length xs' \<and>
           size_q q' \<le> capacity q'"
proof -
  have i: "mpmc_inv q []" using assms(3,2) by (rule mpmc_inv_new)
  have "unat k \<le> next_power_of_two (unat k)" by (rule next_power_of_two_least)
  moreover have "2 \<le> unat k" using assms(1) by (simp add: word_le_nat_alt)
  moreover have "capacity q = next_power_of_2 k"
    using assms(3) by (auto simp: MPMCQueue_new_def Let_def split: if_splits)
  then have "unat (capacity q) = next_power_of_two (unat k)"
    using next_power_of_2_correct [OF assms(2)] by simp
  ultimately have "2 \<le> unat (capacity q)" by simp
  from run_fifo [OF i this, of ops] obtain ins outs q' xs' where
    r: "run nothrow_move q ops = Some (ins, outs, q')" "mpmc_inv q' xs'" "[] @ ins = outs @ xs'"
    by blast
  with mpmc_inv_size [OF r(2)] show ?thesis by auto
qed

lemma rb_run_fifo_new:
  assumes "k \<le> 2 ^ 63" "elem_size \<noteq> 0"
    and "unat elem_size * unat (next_power_of_2 k) < 2 ^ 64"
  shows "\<exists>ins outs r' xs'. rb_run mt (RingBuffer_new elem_size k) ops = Some (ins, outs, r') \<and>
           ins = outs @ xs' \<and> rb_inv r' xs'"
  using rb_run_fifo [OF rb_inv_new [OF assms], of mt ops] by auto

section \<open>The queue of capacity 1: full and size\<close>

text \<open>
  With \<open>capacity = 1\<close> the sequence that marks a slot as published, \<open>pos + 1\<close>, is
  the sequence that marks it as free for the next lap, \<open>pos + capacity\<close>. A producer
  cannot tell a full queue from an empty one.
\<close>

text \<open>
  Claim C3 at the failing input: on the queue built with capacity 1, which is full
  after one enqueue, the second \<open>try_enqueue\<close> returns true and changes the cursor
  and the slot.
\<close>

theorem full_capacity_one_queue_accepts:
  "(MPMCQueue_new 16 1 :: nat MPMCQueue outcome) =
     Returned \<lparr>enqueue_pos = 0, dequeue_pos = 0, capacity = 1, slot_mask = 0,
            buffer = [\<lparr>storage = None, sequence = 0\<rparr>]\<rparr> \<and>
   try_enqueue \<lparr>enqueue_pos = 0, dequeue_pos = 0, capacity = 1, slot_mask = 0,
            buffer = [\<lparr>storage = None, sequence = 0\<rparr>]\<rparr> (Some (10::nat)) =
     Some (Returned True,
           \<lparr>enqueue_pos = 1, dequeue_pos = 0, capacity = 1, slot_mask = 0,
            buffer = [\<lparr>storage = Some 10, sequence = 1\<rparr>]\<rparr>) \<and>
   full_q \<lparr>enqueue_pos = 1, dequeue_pos = 0, capacity = 1, slot_mask = 0,
            buffer = [\<lparr>storage = Some (10::nat), sequence = 1\<rparr>]\<rparr> \<and>
   try_enqueue \<lparr>enqueue_pos = 1, dequeue_pos = 0, capacity = 1, slot_mask = 0,
            buffer = [\<lparr>storage = Some (10::nat), sequence = 1\<rparr>]\<rparr> (Some 20) =
     Some (Returned True,
           \<lparr>enqueue_pos = 2, dequeue_pos = 0, capacity = 1, slot_mask = 0,
            buffer = [\<lparr>storage = Some 20, sequence = 2\<rparr>]\<rparr>)"
  by code_simp

text \<open>
  Claim C4 at the failing input: after two enqueues into the queue built with capacity
  1, \<open>size()\<close> is 2 although the capacity is 1 and the single slot holds one element.
\<close>

theorem size_exceeds_capacity_one:
  "(MPMCQueue_new 16 1 :: nat MPMCQueue outcome) =
     Returned \<lparr>enqueue_pos = 0, dequeue_pos = 0, capacity = 1, slot_mask = 0,
            buffer = [\<lparr>storage = None, sequence = 0\<rparr>]\<rparr> \<and>
   run mt \<lparr>enqueue_pos = 0, dequeue_pos = 0, capacity = 1, slot_mask = 0,
            buffer = [\<lparr>storage = None, sequence = 0\<rparr>]\<rparr> [Enqueue (10::nat), Enqueue 20] =
     Some ([10, 20], [],
           \<lparr>enqueue_pos = 2, dequeue_pos = 0, capacity = 1, slot_mask = 0,
            buffer = [\<lparr>storage = Some 20, sequence = 2\<rparr>]\<rparr>) \<and>
   size_q \<lparr>enqueue_pos = 2, dequeue_pos = 0, capacity = 1, slot_mask = 0,
            buffer = [\<lparr>storage = Some (20::nat), sequence = 2\<rparr>]\<rparr> = 2 \<and>
   \<not> size_q \<lparr>enqueue_pos = 2, dequeue_pos = 0, capacity = 1, slot_mask = 0,
            buffer = [\<lparr>storage = Some (20::nat), sequence = 2\<rparr>]\<rparr>
       \<le> capacity \<lparr>enqueue_pos = 2, dequeue_pos = 0, capacity = 1, slot_mask = 0,
            buffer = [\<lparr>storage = Some (20::nat), sequence = 2\<rparr>]\<rparr>"
  by code_simp

section \<open>Exceptions of the element type\<close>











section \<open>The queue of capacity 1: the order of the elements\<close>

text \<open>
  At capacity 1 every enqueue succeeds, whatever the slot holds; after \<open>2 ^ 64\<close> more
  enqueues the sequence has wrapped around to the value the consumer waits for, and the
  consumer receives the newest element first.
\<close>

lemma capacity_one_always_accepts:
  assumes "capacity q = 1" "slot_mask q = 0" "buffer q = [n]" "sequence n = enqueue_pos q"
  shows "try_emplace q (Some v) =
     Some (Returned True,
           q\<lparr>enqueue_pos := enqueue_pos q + 1,
             buffer := [\<lparr>storage = Some v, sequence = enqueue_pos q + 1\<rparr>]\<rparr>)"
  using assms by (simp add: try_emplace_cases Let_def slot_index_def seq_diff_eq_0)

lemma run_enqueues_capacity_one:
  assumes "capacity q = 1" "slot_mask q = 0" "buffer q = [n]" "sequence n = enqueue_pos q"
  shows "run mt q (map Enqueue (vs @ [v]) @ ops) =
     (case run mt (q\<lparr>enqueue_pos := enqueue_pos q + of_nat (Suc (length vs)),
                  buffer := [\<lparr>storage = Some v,
                              sequence = enqueue_pos q + of_nat (Suc (length vs))\<rparr>]\<rparr>) ops of
        None \<Rightarrow> None
      | Some (ins, outs, q') \<Rightarrow> Some (vs @ v # ins, outs, q'))"
  using assms
proof (induction vs arbitrary: q n)
  case Nil
  from capacity_one_always_accepts [OF Nil, of v]
  show ?case by (simp add: try_enqueue_def split: option.splits)
next
  case (Cons a vs)
  let ?q1 = "q\<lparr>enqueue_pos := enqueue_pos q + 1,
             buffer := [\<lparr>storage = Some a, sequence = enqueue_pos q + 1\<rparr>]\<rparr>"
  have 1: "try_emplace q (Some a) = Some (Returned True, ?q1)"
    by (rule capacity_one_always_accepts [OF Cons.prems])
  have "run mt ?q1 (map Enqueue (vs @ [v]) @ ops) =
     (case run mt (?q1\<lparr>enqueue_pos := enqueue_pos ?q1 + of_nat (Suc (length vs)),
                  buffer := [\<lparr>storage = Some v,
                              sequence = enqueue_pos ?q1 + of_nat (Suc (length vs))\<rparr>]\<rparr>) ops of
        None \<Rightarrow> None
      | Some (ins, outs, q') \<Rightarrow> Some (vs @ v # ins, outs, q'))"
    using Cons.prems by (intro Cons.IH [where n = "\<lparr>storage = Some a, sequence = enqueue_pos q + 1\<rparr>"]) simp_all
  then show ?case
    using 1 by (simp add: try_enqueue_def add.assoc split: option.splits)
qed

lemma newest_first_after_wrap:
  "run nothrow_move
       \<lparr>enqueue_pos = 0, dequeue_pos = 0, capacity = 1, slot_mask = 0,
        buffer = [\<lparr>storage = None, sequence = 0\<rparr>]\<rparr>
       (map Enqueue (replicate (2 ^ 64) (10::nat) @ [20]) @ [Dequeue]) =
     Some (replicate (2 ^ 64) 10 @ [20], [20],
           \<lparr>enqueue_pos = 1, dequeue_pos = 1, capacity = 1, slot_mask = 0,
            buffer = [\<lparr>storage = None, sequence = 1\<rparr>]\<rparr>)"
proof -
  let ?q0 = "\<lparr>enqueue_pos = 0, dequeue_pos = 0, capacity = 1, slot_mask = 0,
            buffer = [\<lparr>storage = None :: nat option, sequence = 0\<rparr>]\<rparr>"
  let ?q1 = "\<lparr>enqueue_pos = 1, dequeue_pos = 0, capacity = 1, slot_mask = 0,
            buffer = [\<lparr>storage = Some (20::nat), sequence = 1\<rparr>]\<rparr>"
  have l: "length (replicate (2 ^ 64) (10::nat)) = 2 ^ 64" by simp
  have w: "(0 :: size_t) + of_nat (Suc (2 ^ 64)) = 1" by simp
  have d: "run nothrow_move ?q1 [Dequeue] = Some ([], [20], \<lparr>enqueue_pos = 1, dequeue_pos = 1, capacity = 1, slot_mask = 0,
            buffer = [\<lparr>storage = None, sequence = 1\<rparr>]\<rparr>)"
    by (simp add: try_dequeue_cases Let_def slot_index_def seq_diff_eq_0 nothrow_move_def)
  have "run nothrow_move ?q0 (map Enqueue (replicate (2 ^ 64) (10::nat) @ [20]) @ [Dequeue]) =
     (case run nothrow_move (?q0\<lparr>enqueue_pos := enqueue_pos ?q0 + of_nat (Suc (length (replicate (2 ^ 64) (10::nat)))),
                  buffer := [\<lparr>storage = Some 20,
                              sequence = enqueue_pos ?q0 + of_nat (Suc (length (replicate (2 ^ 64) (10::nat))))\<rparr>]\<rparr>) [Dequeue] of
        None \<Rightarrow> None
      | Some (ins, outs, q') \<Rightarrow> Some (replicate (2 ^ 64) 10 @ 20 # ins, outs, q'))"
    by (rule run_enqueues_capacity_one [where n = "\<lparr>storage = None, sequence = 0\<rparr>"]) simp_all
  also have "?q0\<lparr>enqueue_pos := enqueue_pos ?q0 + of_nat (Suc (length (replicate (2 ^ 64) (10::nat)))),
                  buffer := [\<lparr>storage = Some 20,
                              sequence = enqueue_pos ?q0 + of_nat (Suc (length (replicate (2 ^ 64) (10::nat))))\<rparr>]\<rparr> = ?q1"
    unfolding l by (simp only: MPMCQueue.simps w)
  finally show ?thesis
    by (simp only: d) simp
qed

text \<open>
  Claim C2 at the failing input: after \<open>try_enqueue 10\<close> and \<open>try_enqueue 20\<close> have
  both returned true on the queue built with capacity 1, the slot holds 20, the value 10
  is gone, and \<open>try_dequeue\<close> never returns. Had \<open>2 ^ 64\<close> enqueues of 10 preceded the
  enqueue of 20, the dequeue would return, with 20, the value enqueued last.
\<close>

theorem first_value_lost_capacity_one:
  "(MPMCQueue_new 16 1 :: nat MPMCQueue outcome) =
     Returned \<lparr>enqueue_pos = 0, dequeue_pos = 0, capacity = 1, slot_mask = 0,
            buffer = [\<lparr>storage = None, sequence = 0\<rparr>]\<rparr> \<and>
   run mt \<lparr>enqueue_pos = 0, dequeue_pos = 0, capacity = 1, slot_mask = 0,
            buffer = [\<lparr>storage = None, sequence = 0\<rparr>]\<rparr> [Enqueue (10::nat), Enqueue 20] =
     Some ([10, 20], [],
           \<lparr>enqueue_pos = 2, dequeue_pos = 0, capacity = 1, slot_mask = 0,
            buffer = [\<lparr>storage = Some 20, sequence = 2\<rparr>]\<rparr>) \<and>
   try_dequeue mt \<lparr>enqueue_pos = 2, dequeue_pos = 0, capacity = 1, slot_mask = 0,
            buffer = [\<lparr>storage = Some (20::nat), sequence = 2\<rparr>]\<rparr> = None \<and>
   run mt \<lparr>enqueue_pos = 0, dequeue_pos = 0, capacity = 1, slot_mask = 0,
            buffer = [\<lparr>storage = None, sequence = 0\<rparr>]\<rparr> [Enqueue (10::nat), Enqueue 20, Dequeue] = None \<and>
   run nothrow_move
       \<lparr>enqueue_pos = 0, dequeue_pos = 0, capacity = 1, slot_mask = 0,
        buffer = [\<lparr>storage = None, sequence = 0\<rparr>]\<rparr>
       (map Enqueue (replicate (2 ^ 64) (10::nat) @ [20]) @ [Dequeue]) =
     Some (replicate (2 ^ 64) 10 @ [20], [20],
           \<lparr>enqueue_pos = 1, dequeue_pos = 1, capacity = 1, slot_mask = 0,
            buffer = [\<lparr>storage = None, sequence = 1\<rparr>]\<rparr>)"
proof -
  let ?q0 = "\<lparr>enqueue_pos = 0, dequeue_pos = 0, capacity = 1, slot_mask = 0,
            buffer = [\<lparr>storage = None :: nat option, sequence = 0\<rparr>]\<rparr>"
  let ?q2 = "\<lparr>enqueue_pos = 2, dequeue_pos = 0, capacity = 1, slot_mask = 0,
            buffer = [\<lparr>storage = Some (20::nat), sequence = 2\<rparr>]\<rparr>"
  have n: "(MPMCQueue_new 16 1 :: nat MPMCQueue outcome) = Returned ?q0" by code_simp
  have r: "run mt ?q0 [Enqueue (10::nat), Enqueue 20] = Some ([10, 20], [], ?q2)"
    by code_simp
  have d: "try_dequeue mt ?q2 = None"
    by (simp add: try_dequeue_cases Let_def slot_index_def seq_diff_def)
  have e1: "try_enqueue ?q0 (Some (10::nat)) =
     Some (Returned True,
           \<lparr>enqueue_pos = 1, dequeue_pos = 0, capacity = 1, slot_mask = 0,
            buffer = [\<lparr>storage = Some 10, sequence = 1\<rparr>]\<rparr>)" by code_simp
  have e2: "try_enqueue \<lparr>enqueue_pos = 1, dequeue_pos = 0, capacity = 1, slot_mask = 0,
            buffer = [\<lparr>storage = Some (10::nat), sequence = 1\<rparr>]\<rparr> (Some 20) =
     Some (Returned True, ?q2)" by code_simp
  have "run mt ?q0 [Enqueue (10::nat), Enqueue 20, Dequeue] = None"
    by (simp add: e1 e2 d)
  with n r d newest_first_after_wrap show ?thesis by (simp only: simp_thms)
qed

section \<open>Unbounded queue: pushing keeps the chain\<close>

lemma q_chain_in_heap:
  "q_chain h a as \<Longrightarrow> b \<in> set (a # as) \<Longrightarrow> b < length h"
  by (induction as arbitrary: a) (auto simp: deref_def split: option.splits if_splits)

lemma q_chain_suffix:
  "q_chain h a as \<Longrightarrow> t \<in> set (a # as) \<Longrightarrow>
   \<exists>pre rest. a # as = pre @ t # rest \<and> q_chain h t rest"
proof (induction as arbitrary: a)
  case Nil
  then have "[a] = [] @ t # [] \<and> q_chain h t []" by simp
  then show ?case by blast
next
  case (Cons b bs)
  show ?case
  proof (cases "t = a")
    case True
    with Cons.prems show ?thesis by (intro exI [of _ "[]"] exI [of _ "b # bs"]) simp
  next
    case False
    with Cons.prems have "q_chain h b bs" "t \<in> set (b # bs)"
      by (auto split: option.splits)
    from Cons.IH [OF this] obtain pre rest where "b # bs = pre @ t # rest" "q_chain h t rest"
      by blast
    then show ?thesis by (intro exI [of _ "a # pre"] exI [of _ rest]) simp
  qed
qed

text \<open>
  \<open>link_loop\<close> walks a lagging tail forward to the last node and hangs the new
  node \<open>n\<close> behind it.
\<close>

lemma link_loop_chain:
  assumes "q_tail q = Some t" "q_chain (q_heap q) t rest"
  shows "\<exists>node. deref (q_heap q) (last (t # rest)) = Some node \<and> next_node node = None \<and>
     link_loop q n =
       Some (Returned (last (t # rest)),
             q\<lparr>q_tail := Some (last (t # rest)),
               q_heap := (q_heap q)[last (t # rest) := Some (node\<lparr>next_node := Some n\<rparr>)]\<rparr>)"
  using assms
proof (induction rest arbitrary: q t)
  case Nil
  then obtain node where "deref (q_heap q) t = Some node" "next_node node = None"
    by (auto split: option.splits)
  with Nil show ?case
    by (subst link_loop.simps) simp
next
  case (Cons b bs)
  then obtain node where node: "deref (q_heap q) t = Some node" "next_node node = Some b"
    "q_chain (q_heap q) b bs"
    by (auto split: option.splits)
  let ?q1 = "q\<lparr>q_tail := Some b\<rparr>"
  have "link_loop q n = link_loop ?q1 n"
    using Cons.prems(1) node by (subst link_loop.simps) simp
  moreover from Cons.IH [of ?q1 b] node(3)
  obtain l where "deref (q_heap q) (last (b # bs)) = Some l" "next_node l = None"
    "link_loop ?q1 n =
       Some (Returned (last (b # bs)),
             ?q1\<lparr>q_tail := Some (last (b # bs)),
               q_heap := (q_heap ?q1)[last (b # bs) := Some (l\<lparr>next_node := Some n\<rparr>)]\<rparr>)"
    by auto
  ultimately show ?case by auto
qed

lemma deref_update_same: "a < length h \<Longrightarrow> deref (h[a := x]) a = x"
  by (simp add: deref_def)

lemma derefD: "deref h a = Some x \<Longrightarrow> a < length h"
  by (simp add: deref_def split: if_splits)

lemma q_chain_extend:
  assumes "q_chain h a as" "distinct (a # as)" "deref h n = Some new" "next_node new = None"
    "n \<notin> set (a # as)" "deref h (last (a # as)) = Some l"
  shows "q_chain (h[last (a # as) := Some (l\<lparr>next_node := Some n\<rparr>)]) a (as @ [n])"
  using assms
proof (induction as arbitrary: a)
  case Nil
  then have "a < length h" "n \<noteq> a" by (auto dest: derefD)
  with Nil show ?case by (simp add: deref_update_same deref_update_other)
next
  case (Cons b bs)
  from Cons.prems obtain node where node: "deref h a = Some node" "next_node node = Some b"
    "q_chain h b bs"
    by (auto split: option.splits)
  have "last (b # bs) \<noteq> a"
    using Cons.prems(2) by (metis distinct.simps(2) last_in_set list.distinct(1))
  then have "deref (h[last (b # bs) := Some (l\<lparr>next_node := Some n\<rparr>)]) a = deref h a"
    by (simp add: deref_update_other)
  moreover have "q_chain (h[last (b # bs) := Some (l\<lparr>next_node := Some n\<rparr>)]) b (bs @ [n])"
    using Cons.prems node(3) by (intro Cons.IH) auto
  ultimately show ?case using node by simp
qed

text \<open>
  On a well-formed queue \<open>push\<close> returns and appends the new node to the chain; the
  dummy node stays where it is.
\<close>

lemma q_push_inv:
  assumes "queue_inv q d as"
  shows "\<exists>q'. q_push q v = Some (Returned (), q') \<and> queue_inv q' d (as @ [length (q_heap q)]) \<and>
           deref (q_heap q') (length (q_heap q)) = Some \<lparr>data = v, next_node = None\<rparr>"
proof -
  define n where "n = length (q_heap q)"
  define new where "new = \<lparr>data = v, next_node = None\<rparr>"
  define h where "h = q_heap q @ [Some new]"
  from assms obtain t where t: "q_head q = Some d" "q_chain (q_heap q) d as" "distinct (d # as)"
    "q_tail q = Some t" "t \<in> set (d # as)"
    by (auto simp: queue_inv_def split: option.splits)
  have inh: "b < n" if "b \<in> set (d # as)" for b
    using q_chain_in_heap [OF t(2) that] by (simp add: n_def)
  have same: "deref h b = deref (q_heap q) b" if "b < n" for b
    using that by (simp add: h_def n_def deref_def nth_append)
  have ch: "q_chain h a bs" if "q_chain (q_heap q) a bs" for a bs
    using that
  proof (induction bs arbitrary: a)
    case Nil
    then have "a < n" by (auto simp: deref_def n_def split: if_splits)
    with Nil show ?case by (simp add: same)
  next
    case (Cons b bs)
    then have "a < n" by (auto simp: deref_def n_def split: if_splits option.splits)
    with Cons show ?case by (auto simp: same split: option.splits)
  qed
  from q_chain_suffix [OF t(2) t(5)] obtain pre rest where
    pr: "d # as = pre @ t # rest" "q_chain (q_heap q) t rest"
    by blast
  then have la: "last (t # rest) = last (d # as)" by (metis last_appendR list.distinct(1))
  define l where "l = last (d # as)"
  let ?q0 = "q\<lparr>q_heap := h\<rparr>"
  have "\<exists>node. deref (q_heap ?q0) (last (t # rest)) = Some node \<and> next_node node = None \<and>
     link_loop ?q0 n =
       Some (Returned (last (t # rest)),
             ?q0\<lparr>q_tail := Some (last (t # rest)),
               q_heap := (q_heap ?q0)[last (t # rest) := Some (node\<lparr>next_node := Some n\<rparr>)]\<rparr>)"
    using t(4) ch [OF pr(2)] by (intro link_loop_chain) simp_all
  then obtain node where node: "deref h l = Some node" "next_node node = None"
    "link_loop ?q0 n = Some (Returned l,
       ?q0\<lparr>q_tail := Some l, q_heap := h[l := Some (node\<lparr>next_node := Some n\<rparr>)]\<rparr>)"
    unfolding la l_def [symmetric] by auto
  define q' where "q' = q\<lparr>q_tail := Some n, q_heap := h[l := Some (node\<lparr>next_node := Some n\<rparr>)]\<rparr>"
  have p: "q_push q v = Some (Returned (), q')"
    using node(3)
    by (simp add: q_push_def new_node_def n_def [symmetric] new_def [symmetric] h_def [symmetric] q'_def)
  have nn: "n \<notin> set (d # as)" using inh by blast
  have dn: "deref h n = Some new" by (simp add: h_def n_def deref_def)
  have "q_chain (h[l := Some (node\<lparr>next_node := Some n\<rparr>)]) d (as @ [n])"
    unfolding l_def
    using ch [OF t(2)] t(3) dn nn node(1)
    by (intro q_chain_extend [where new = new]) (simp_all add: new_def l_def)
  moreover have "l \<noteq> n" using nn unfolding l_def by (metis last_in_set list.distinct(1))
  ultimately have "queue_inv q' d (as @ [n])"
    using t nn by (auto simp: queue_inv_def q'_def)
  moreover have "deref (q_heap q') n = Some new"
    using dn \<open>l \<noteq> n\<close> by (simp add: q'_def deref_update_other)
  ultimately show ?thesis using p by (auto simp: n_def new_def)
qed

end
